theory Spec2Isabelle
  imports Complex_Main "HOL-Library.Stream"
begin

section \<open>Exceptions\<close>

text \<open>
  The Python exceptions that the two modules (and the library calls they make) can raise.
  A function that may raise returns \<open>error + 'a\<close>, with \<open>Inl\<close> for the exception.
\<close>

datatype error =
    ValueError string
  | AssertionError string
  | IndexError
  | NetworkXPointlessConcept
  | NetworkXError string

text \<open>The class of an exception, which is what an \<open>except\<close> clause tells exceptions
  apart by; the message is not part of it.\<close>

fun exception_class :: "error \<Rightarrow> string" where
  "exception_class (ValueError msg) = ''ValueError''"
| "exception_class (AssertionError msg) = ''AssertionError''"
| "exception_class IndexError = ''IndexError''"
| "exception_class NetworkXPointlessConcept = ''NetworkXPointlessConcept''"
| "exception_class (NetworkXError msg) = ''NetworkXError''"

definition msg_out_of_bounds :: string where
  "msg_out_of_bounds =
     ''An index in '' @ [CHR 0x27] @ ''indices'' @ [CHR 0x27] @ '' is out of bounds for the graph size''"

definition msg_negative :: string where
  "msg_negative = ''Indices must be non-negative''"

definition msg_probability :: string where
  "msg_probability = ''edge_probability must be between 0 and 1''"

definition msg_n :: string where
  "msg_n = ''n must be greater than 0''"

definition msg_not_connected :: string where
  "msg_not_connected = ''Graph could not be connected.''"

definition msg_not_subset :: string where
  "msg_not_subset = ''Input indices are not a subset of the result.''"

definition msg_no_nodes :: string where
  "msg_no_nodes = ''Graph has no nodes or edges''"

section \<open>Sparse matrices in compressed-sparse-column form\<close>

text \<open>
  A \<open>scipy.sparse.csc_matrix\<close>: its shape and the three arrays \<open>indptr\<close>, \<open>indices\<close>
  and \<open>data\<close>. Column \<open>j\<close> owns the positions \<open>indptr[j] ..< indptr[j+1]\<close> of
  \<open>indices\<close> (row numbers) and \<open>data\<close> (values). The values are float64; every value
  that occurs here is a small whole number, which float64 represents exactly.
\<close>

record csc =
  nrows :: nat
  ncols :: nat
  indptr :: "nat list"
  indices :: "nat list"
  data :: "real list"

text \<open>Reading one element of a numpy array: a negative index counts from the end,
  an index out of range raises \<open>IndexError\<close>.\<close>

definition np_get :: "'a list \<Rightarrow> int \<Rightarrow> error + 'a" where
  "np_get xs i =
     (let n = int (length xs) in
      if 0 \<le> i \<and> i < n then Inr (xs ! nat i)
      else if - n \<le> i \<and> i < 0 then Inr (xs ! nat (n + i))
      else Inl IndexError)"

text \<open>The slice \<open>xs[s:e]\<close> for non-negative bounds: it never raises, it is cut at the end
  of the array and it is empty when \<open>e \<le> s\<close>.\<close>

definition np_slice :: "'a list \<Rightarrow> nat \<Rightarrow> nat \<Rightarrow> 'a list" where
  "np_slice xs s e = take (e - s) (drop s xs)"

text \<open>Python's \<open>max\<close> and \<open>min\<close> of a non-empty list. The program guards both calls
  with \<open>indices and \<dots>\<close>, so the value at the empty list is never used.\<close>

fun py_max :: "int list \<Rightarrow> int" where
  "py_max [] = 0"
| "py_max (x # xs) = fold max xs x"

fun py_min :: "int list \<Rightarrow> int" where
  "py_min [] = 0"
| "py_min (x # xs) = fold min xs x"

section \<open>Closed neighbourhoods: \<open>get_neighborhood_indices\<close>\<close>

text \<open>
  The matrix argument is taken in CSC form, the form \<open>adj_mat.tocsc()\<close> brings it to.
  What the function reads of the matrix is part of its result: the list of the
  attributes it has read, in the order of the reads.
\<close>

datatype matrix_attr = Shape | Indptr | Indices

text \<open>
  The loop \<open>for idx in indices\<close>: the Python set \<open>neighborhood_indices_set\<close> is kept as
  the list of everything put into it; the duplicates go when the set is turned into the
  sorted result.
\<close>

fun collect_neighbors ::
    "csc \<Rightarrow> int list \<Rightarrow> int list \<Rightarrow> matrix_attr list \<Rightarrow> (error + int list) \<times> matrix_attr list"
where
  "collect_neighbors adj_mat [] acc reads = (Inr acc, reads)"
| "collect_neighbors adj_mat (idx # rest) acc reads =
     (case np_get (indptr adj_mat) idx of
        Inl e \<Rightarrow> (Inl e, reads @ [Indptr])
      | Inr start_ptr \<Rightarrow>
          (case np_get (indptr adj_mat) (idx + 1) of
             Inl e \<Rightarrow> (Inl e, reads @ [Indptr, Indptr])
           | Inr end_ptr \<Rightarrow>
               collect_neighbors adj_mat rest
                 (acc @ map int (np_slice (indices adj_mat) start_ptr end_ptr))
                 (reads @ [Indptr, Indptr, Indices])))"

definition get_neighborhood_indices ::
    "int list \<Rightarrow> csc \<Rightarrow> (error + int list) \<times> matrix_attr list" where
  "get_neighborhood_indices idxs adj_mat =
     (let num_nodes = int (nrows adj_mat) in
      if idxs \<noteq> [] \<and> py_max idxs \<ge> num_nodes then (Inl (ValueError msg_out_of_bounds), [Shape])
      else if idxs \<noteq> [] \<and> py_min idxs < 0 then (Inl (ValueError msg_negative), [Shape])
      else if idxs = [] then (Inr [], [Shape])
      else
        (case collect_neighbors adj_mat idxs idxs [Shape] of
           (Inl e, reads) \<Rightarrow> (Inl e, reads)
         | (Inr neighborhood_indices_set, reads) \<Rightarrow>
             (let final_indices = sort (remdups neighborhood_indices_set) in
              if list_all (\<lambda>idx. idx \<in> set final_indices) idxs then (Inr final_indices, reads)
              else (Inl (AssertionError msg_not_subset), reads))))"

text \<open>The invariants of a square CSC matrix: one column pointer per column and one more,
  and every stored row number inside the matrix.\<close>

definition csc_square :: "csc \<Rightarrow> bool" where
  "csc_square m \<longleftrightarrow>
     nrows m = ncols m \<and> length (indptr m) = ncols m + 1 \<and>
     list_all (\<lambda>i. i < nrows m) (indices m)"

section \<open>Graphs\<close>

text \<open>
  An undirected \<open>networkx.Graph\<close>, as the library keeps it: the nodes in the order in
  which they were added (the keys of \<open>G._node\<close>) and, for every node, its neighbours in
  the order in which they were added (the keys of \<open>G._adj[u]\<close>). The library is not part
  of the repository; its operations are modelled by what they do to these two tables.
\<close>

record 'a graph =
  nodes :: "'a list"
  adj :: "'a \<Rightarrow> 'a list"

definition empty_graph :: "'a graph" where
  "empty_graph = \<lparr>nodes = [], adj = (\<lambda>_. [])\<rparr>"

text \<open>Adding a key to a Python set or dict: a key that is already there keeps its place.\<close>

definition py_set_add :: "'a list \<Rightarrow> 'a \<Rightarrow> 'a list" where
  "py_set_add xs x = (if x \<in> set xs then xs else xs @ [x])"

definition add_node :: "'a graph \<Rightarrow> 'a \<Rightarrow> 'a graph" where
  "add_node g u =
     (if u \<in> set (nodes g) then g
      else g\<lparr>nodes := nodes g @ [u], adj := (adj g)(u := [])\<rparr>)"

definition add_nodes_from :: "'a graph \<Rightarrow> 'a list \<Rightarrow> 'a graph" where
  "add_nodes_from g us = fold (\<lambda>u h. add_node h u) us g"

text \<open>\<open>G.add_edge(u, v)\<close> adds the two nodes when they are new and records each as a
  neighbour of the other.\<close>

definition add_edge :: "'a graph \<Rightarrow> 'a \<Rightarrow> 'a \<Rightarrow> 'a graph" where
  "add_edge g u v =
     (let g1 = add_node (add_node g u) v;
          a1 = (adj g1)(u := py_set_add (adj g1 u) v);
          a2 = a1(v := py_set_add (a1 v) u)
      in g1\<lparr>adj := a2\<rparr>)"

definition add_edges_from :: "'a graph \<Rightarrow> ('a \<times> 'a) list \<Rightarrow> 'a graph" where
  "add_edges_from g es = fold (\<lambda>(u, v) h. add_edge h u v) es g"

text \<open>\<open>G.edges()\<close> reports every undirected edge once, from the endpoint that comes
  first in the node order.\<close>

fun edges_from :: "'a graph \<Rightarrow> 'a list \<Rightarrow> 'a list \<Rightarrow> ('a \<times> 'a) list" where
  "edges_from g seen [] = []"
| "edges_from g seen (n # ns) =
     map (Pair n) (filter (\<lambda>nbr. nbr \<notin> set seen) (adj g n)) @ edges_from g (n # seen) ns"

definition edges :: "'a graph \<Rightarrow> ('a \<times> 'a) list" where
  "edges g = edges_from g [] (nodes g)"

subsection \<open>Connected components\<close>

text \<open>
  \<open>nx.connected_components(G)\<close> yields the node sets of the connected components, the
  component of the earliest node first. The model computes them by merging: it starts
  from one class per node and, for every adjacency entry \<open>(u, v)\<close>, joins the classes of
  \<open>u\<close> and \<open>v\<close>; the joined class stays where the earlier of the two was. The order of
  the nodes inside a class stands for the order in which Python lists a set.
\<close>

definition edge_pairs :: "'a graph \<Rightarrow> ('a \<times> 'a) list" where
  "edge_pairs g = concat (map (\<lambda>u. map (Pair u) (adj g u)) (nodes g))"

fun merge_classes :: "'a \<Rightarrow> 'a \<Rightarrow> 'a list list \<Rightarrow> 'a list list" where
  "merge_classes a b [] = []"
| "merge_classes a b (c # cs) =
     (if a \<in> set c \<or> b \<in> set c
      then (c @ concat (filter (\<lambda>d. a \<in> set d \<or> b \<in> set d) cs))
             # filter (\<lambda>d. \<not> (a \<in> set d \<or> b \<in> set d)) cs
      else c # merge_classes a b cs)"

definition connected_components :: "'a graph \<Rightarrow> 'a list list" where
  "connected_components g =
     fold (\<lambda>(u, v) cs. merge_classes u v cs) (edge_pairs g) (map (\<lambda>u. [u]) (nodes g))"

text \<open>\<open>nx.is_connected(G)\<close> raises on the graph without nodes and otherwise tells
  whether all nodes are in one component.\<close>

definition is_connected :: "'a graph \<Rightarrow> error + bool" where
  "is_connected g =
     (if nodes g = [] then Inl NetworkXPointlessConcept
      else Inr (length (connected_components g) = 1))"

text \<open>The graph-theoretic notions the components are measured against: the adjacency
  relation, and being joined by a path.\<close>

definition edge_rel :: "'a graph \<Rightarrow> ('a \<times> 'a) set" where
  "edge_rel g = {(u, v). v \<in> set (adj g u)}"

definition path_connected :: "'a graph \<Rightarrow> bool" where
  "path_connected g \<longleftrightarrow>
     nodes g \<noteq> [] \<and> (\<forall>u\<in>set (nodes g). \<forall>v\<in>set (nodes g). (u, v) \<in> (edge_rel g)\<^sup>*)"

text \<open>What the library maintains for every graph built by its operations: no node is
  listed twice, neighbours are nodes, and adjacency is mutual.\<close>

definition graph_ok :: "'a graph \<Rightarrow> bool" where
  "graph_ok g \<longleftrightarrow>
     distinct (nodes g) \<and>
     (\<forall>u v. v \<in> set (adj g u) \<longrightarrow>
        u \<in> set (nodes g) \<and> v \<in> set (nodes g) \<and> u \<in> set (adj g v))"

section \<open>Matrices of a graph\<close>

fun col_ptrs :: "nat \<Rightarrow> 'a list list \<Rightarrow> nat list" where
  "col_ptrs k [] = [k]"
| "col_ptrs k (c # cs) = k # col_ptrs (k + length c) cs"

text \<open>A CSC matrix with the given number of rows, from the (row, value) entries of each
  column.\<close>

definition csc_of_columns :: "nat \<Rightarrow> (nat \<times> real) list list \<Rightarrow> csc" where
  "csc_of_columns n cols =
     \<lparr>nrows = n, ncols = length cols, indptr = col_ptrs 0 cols,
      indices = map fst (concat cols), data = map snd (concat cols)\<rparr>"

text \<open>
  The matrix that \<open>nx.adjacency_matrix(g).astype(np.float64).tocsc()\<close> builds: row and
  column \<open>i\<close> stand for the \<open>i\<close>-th node of \<open>list(g)\<close>, and the entry at row \<open>i\<close>,
  column \<open>j\<close> is 1 when node \<open>j\<close> is a neighbour of node \<open>i\<close>. The rows of a column come
  in increasing order.
\<close>

definition adjacency_csc :: "'a graph \<Rightarrow> csc" where
  "adjacency_csc g =
     (let nodelist = nodes g; nlen = length nodelist in
      csc_of_columns nlen
        (map (\<lambda>j. map (\<lambda>i. (i, 1))
                 (filter (\<lambda>i. nodelist ! j \<in> set (adj g (nodelist ! i))) [0..<nlen]))
           [0..<nlen]))"

text \<open>\<open>nx.adjacency_matrix\<close> raises \<open>NetworkXError\<close> on a graph without nodes.\<close>

definition adjacency_matrix :: "'a graph \<Rightarrow> error + csc" where
  "adjacency_matrix g =
     (if length (nodes g) = 0 then Inl (NetworkXError msg_no_nodes) else Inr (adjacency_csc g))"

text \<open>The stored entries of column \<open>j\<close>, and the value \<open>M[i, j]\<close> they give.\<close>

definition column :: "csc \<Rightarrow> nat \<Rightarrow> (nat \<times> real) list" where
  "column m j =
     (if j + 1 < length (indptr m)
      then np_slice (zip (indices m) (data m)) (indptr m ! j) (indptr m ! (j + 1))
      else [])"

definition entry :: "csc \<Rightarrow> nat \<Rightarrow> nat \<Rightarrow> real" where
  "entry m i j = sum_list (map snd (filter (\<lambda>e. fst e = i) (column m j)))"

definition diagonal :: "csc \<Rightarrow> real list" where
  "diagonal m = map (\<lambda>i. entry m i i) [0..<nrows m]"

text \<open>\<open>np.array(adj_matrix.sum(axis=1)).flatten()\<close>: the sum of the stored values of
  each row.\<close>

definition row_sums :: "csc \<Rightarrow> real list" where
  "row_sums m =
     map (\<lambda>i. sum_list (map snd (filter (\<lambda>e. fst e = i) (zip (indices m) (data m)))))
       [0..<nrows m]"

text \<open>\<open>sp.diags(degrees, format='csc')\<close>: the square matrix with \<open>degrees\<close> on its
  diagonal; a zero is not stored.\<close>

definition diags :: "real list \<Rightarrow> csc" where
  "diags degrees =
     csc_of_columns (length degrees)
       (map (\<lambda>j. if degrees ! j = 0 then [] else [(j, degrees ! j)]) [0..<length degrees])"

section \<open>The random source\<close>

text \<open>
  Python's global generator is an explicit stream of raw draws, passed along and returned.
  \<open>random.random()\<close> is a float \<open>k / 2^53\<close> with \<open>0 \<le> k < 2^53\<close>, so it lies in
  \<open>[0, 1)\<close> and can be \<open>0.0\<close>; a draw below \<open>k\<close> is any number in \<open>[0, k)\<close>.
  A draw is the value a call of the library returns: how the library gets it from the
  bits of its generator is not part of the model.
\<close>

type_synonym rng = "nat stream"

definition random_random :: "rng \<Rightarrow> real \<times> rng" where
  "random_random r = (real (shd r mod 2 ^ 53) / 2 ^ 53, stl r)"

definition randbelow :: "nat \<Rightarrow> rng \<Rightarrow> nat \<times> rng" where
  "randbelow k r = (shd r mod k, stl r)"

text \<open>\<open>random.sample(range(m), 2)\<close>: two different positions, the second taken from the
  pool in which the last position has replaced the first pick.\<close>

definition random_sample2 :: "nat \<Rightarrow> rng \<Rightarrow> error + (nat \<times> nat \<times> rng)" where
  "random_sample2 m r =
     (if m < 2 then Inl (ValueError ''Sample larger than population or is negative'')
      else
        (let (j0, r1) = randbelow m r;
             (j1, r2) = randbelow (m - 1) r1
         in Inr (j0, if j1 = j0 then m - 1 else j1, r2)))"

text \<open>\<open>random.choice(seq)\<close> raises \<open>IndexError\<close> on an empty sequence.\<close>

definition random_choice :: "'a list \<Rightarrow> rng \<Rightarrow> error + ('a \<times> rng)" where
  "random_choice xs r =
     (if xs = [] then Inl IndexError
      else (let (j, r') = randbelow (length xs) r in Inr (xs ! j, r')))"

section \<open>Random connected graphs: \<open>create_connected_graph\<close>\<close>

text \<open>One trial of the sampling loop: \<open>if random.random() <= edge_probability:
  g.add_edge(i, j)\<close>.\<close>

definition sample_pair :: "real \<Rightarrow> int \<Rightarrow> int \<Rightarrow> int graph \<times> rng \<Rightarrow> int graph \<times> rng" where
  "sample_pair edge_probability i j s =
     (case s of (g, r) \<Rightarrow>
        (let (x, r') = random_random r in
         if x \<le> edge_probability then (add_edge g i j, r') else (g, r')))"

text \<open>The graph on \<open>range(n)\<close> and the two nested \<open>for\<close> loops over \<open>i\<close> and
  \<open>j\<close> in \<open>range(i + 1, n)\<close>.\<close>

definition sample_edges :: "int \<Rightarrow> real \<Rightarrow> rng \<Rightarrow> int graph \<times> rng" where
  "sample_edges n edge_probability r =
     fold (\<lambda>i. fold (\<lambda>j. sample_pair edge_probability i j) [i + 1..n - 1]) [0..n - 1]
       (add_nodes_from empty_graph [0..n - 1], r)"

text \<open>The body of the repair loop after the components are known: two different
  components, and one node of each.\<close>

definition pick_nodes :: "'a list list \<Rightarrow> rng \<Rightarrow> error + ('a \<times> 'a \<times> rng)" where
  "pick_nodes components r =
     (case random_sample2 (length components) r of
        Inl e \<Rightarrow> Inl e
      | Inr (comp1_idx, comp2_idx, r1) \<Rightarrow>
          (case random_choice (components ! comp1_idx) r1 of
             Inl e \<Rightarrow> Inl e
           | Inr (node1, r2) \<Rightarrow>
               (case random_choice (components ! comp2_idx) r2 of
                  Inl e \<Rightarrow> Inl e
                | Inr (node2, r3) \<Rightarrow> Inr (node1, node2, r3))))"

text \<open>
  The loop \<open>while not nx.is_connected(g)\<close>. A run that never leaves the loop is \<open>None\<close>.
  The number \<open>k\<close> is not in the program: it counts the iterations carried out, that is,
  the edges the loop has added.
\<close>

partial_function (option) repair ::
    "'a graph \<Rightarrow> rng \<Rightarrow> nat \<Rightarrow> (error + 'a graph \<times> rng \<times> nat) option" where
  "repair g r k =
     (case is_connected g of
        Inl e \<Rightarrow> Some (Inl e)
      | Inr is_conn \<Rightarrow>
          if is_conn then Some (Inr (g, r, k))
          else
            (let components = connected_components g in
             if length components \<le> 1 then Some (Inr (g, r, k))
             else
               (case pick_nodes components r of
                  Inl e \<Rightarrow> Some (Inl e)
                | Inr (node1, node2, r') \<Rightarrow> repair (add_edge g node1 node2) r' (Suc k))))"

text \<open>Lines 19 to 49 of \<open>create_connected_graph\<close>: the checks of the arguments, the
  sampling, the repair and the final assertion. The result is the graph, the random
  source as it is left, and the number of repairs.\<close>

definition connected_graph ::
    "int \<Rightarrow> real \<Rightarrow> rng \<Rightarrow> (error + int graph \<times> rng \<times> nat) option" where
  "connected_graph n edge_probability r =
     (if \<not> (0 \<le> edge_probability \<and> edge_probability \<le> 1)
      then Some (Inl (ValueError msg_probability))
      else if n < 1 then Some (Inl (ValueError msg_n))
      else
        (case sample_edges n edge_probability r of
           (g, r1) \<Rightarrow>
             (case repair g r1 0 of
                None \<Rightarrow> None
              | Some (Inl e) \<Rightarrow> Some (Inl e)
              | Some (Inr (g', r2, k)) \<Rightarrow>
                  (case is_connected g' of
                     Inl e \<Rightarrow> Some (Inl e)
                   | Inr is_conn \<Rightarrow>
                       if is_conn then Some (Inr (g', r2, k))
                       else Some (Inl (AssertionError msg_not_connected))))))"

text \<open>The whole function: the adjacency matrix and the degree matrix of that graph.\<close>

definition create_connected_graph ::
    "int \<Rightarrow> real \<Rightarrow> rng \<Rightarrow> (error + (csc \<times> csc) \<times> rng) option" where
  "create_connected_graph n edge_probability r =
     (case connected_graph n edge_probability r of
        None \<Rightarrow> None
      | Some (Inl e) \<Rightarrow> Some (Inl e)
      | Some (Inr (g, r', k)) \<Rightarrow>
          (case adjacency_matrix g of
             Inl e \<Rightarrow> Some (Inl e)
           | Inr adj_matrix \<Rightarrow>
               (let degrees = row_sums adj_matrix;
                    deg_matrix = diags degrees
                in Some (Inr ((adj_matrix, deg_matrix), r')))))"

section \<open>Loading an edge list: \<open>loadsnap\<close>\<close>

text \<open>
  The file is the list of its lines; a character is a code point below 256. Python's
  white space in that range is the characters 9 to 13, 28 to 32, 133 and 160.
\<close>

definition is_space :: "char \<Rightarrow> bool" where
  "is_space c \<longleftrightarrow>
     (let k = (of_char c :: nat) in (9 \<le> k \<and> k \<le> 13) \<or> (28 \<le> k \<and> k \<le> 32) \<or> k = 133 \<or> k = 160)"

definition strip :: "string \<Rightarrow> string" where
  "strip s = rev (dropWhile is_space (rev (dropWhile is_space s)))"

text \<open>\<open>line.split()\<close>: the maximal runs of characters that are not white space.\<close>

fun split_acc :: "string \<Rightarrow> string \<Rightarrow> string list" where
  "split_acc [] cur = (if cur = [] then [] else [cur])"
| "split_acc (c # cs) cur =
     (if is_space c then (if cur = [] then split_acc cs [] else cur # split_acc cs [])
      else split_acc cs (cur @ [c]))"

definition split :: "string \<Rightarrow> string list" where
  "split s = split_acc s []"

text \<open>\<open>int(token)\<close> in base 10: an optional sign, then digits, where single underscores
  may stand between digits; a token with more than 4300 digits (the default of
  \<open>sys.get_int_max_str_digits()\<close>; the sign and the underscores do not count) is refused.
  \<open>None\<close> is the \<open>ValueError\<close>, which \<open>loadsnap\<close> catches.\<close>

definition int_max_str_digits :: nat where
  "int_max_str_digits = 4300"

definition is_digit :: "char \<Rightarrow> bool" where
  "is_digit c \<longleftrightarrow> 48 \<le> (of_char c :: nat) \<and> (of_char c :: nat) \<le> 57"

definition digit_val :: "char \<Rightarrow> int" where
  "digit_val c = int (of_char c) - 48"

fun digits_val :: "string \<Rightarrow> int \<Rightarrow> int option" where
  "digits_val [] acc = Some acc"
| "digits_val [c] acc = (if is_digit c then Some (10 * acc + digit_val c) else None)"
| "digits_val (c # d # ds) acc =
     (if is_digit c then digits_val (d # ds) (10 * acc + digit_val c)
      else if c = CHR ''_'' \<and> is_digit d then digits_val ds (10 * acc + digit_val d)
      else None)"

definition unsigned_int :: "string \<Rightarrow> int option" where
  "unsigned_int s =
     (case s of [] \<Rightarrow> None
      | c # cs \<Rightarrow> if is_digit c then digits_val cs (digit_val c) else None)"

definition py_int :: "string \<Rightarrow> int option" where
  "py_int s =
     (if length (filter is_digit s) > int_max_str_digits then None
      else
        (case s of [] \<Rightarrow> None
         | c # cs \<Rightarrow>
             if c = CHR ''-'' then map_option uminus (unsigned_int cs)
             else if c = CHR ''+'' then unsigned_int cs
             else unsigned_int s))"

text \<open>What one line of the file yields: nothing for a comment, a blank line, a line with
  fewer than two tokens or a token that is not an integer; otherwise the pair of its
  first two tokens.\<close>

definition parse_line :: "string \<Rightarrow> (int \<times> int) option" where
  "parse_line raw =
     (let line = strip raw in
      if take 1 line = ''#'' \<or> line = [] then None
      else
        (let parts = split line in
         if length parts < 2 then None
         else
           (case py_int (parts ! 0) of
              None \<Rightarrow> None
            | Some u_orig \<Rightarrow>
                (case py_int (parts ! 1) of
                   None \<Rightarrow> None
                 | Some v_orig \<Rightarrow> Some (u_orig, v_orig)))))"

text \<open>The body of the loop over the lines. The list \<open>edges_to_add\<close> holds the elements of
  the Python set, each once (in the order in which they were put in).\<close>

definition load_line :: "(int \<times> int) list \<Rightarrow> string \<Rightarrow> (int \<times> int) list" where
  "load_line edges_to_add raw =
     (case parse_line raw of
        None \<Rightarrow> edges_to_add
      | Some (u, v) \<Rightarrow>
          if u \<noteq> v then py_set_add edges_to_add (min u v, max u v) else edges_to_add)"

definition read_edges :: "string list \<Rightarrow> (int \<times> int) list" where
  "read_edges lines = fold (\<lambda>raw edges_to_add. load_line edges_to_add raw) lines []"

definition endpoints :: "(int \<times> int) list \<Rightarrow> int list" where
  "endpoints edges_to_add =
     fold (\<lambda>(u, v) all_nodes. py_set_add (py_set_add all_nodes u) v) edges_to_add []"

text \<open>
  Python lists a set in an order of its own (by hash), not in the order of insertion.
  That order is the argument \<open>set_order\<close>: it turns the elements of \<open>edges_to_add\<close> into
  the list that \<open>for u, v in edges_to_add\<close> and \<open>list(edges_to_add)\<close> run through. All that
  is known of it is that it lists the same elements.
\<close>

definition lists_edges :: "((int \<times> int) list \<Rightarrow> (int \<times> int) list) \<Rightarrow> string list \<Rightarrow> bool" where
  "lists_edges set_order lines \<longleftrightarrow>
     set (set_order (read_edges lines)) = set (read_edges lines)"

text \<open>Lines 25 to 82 of \<open>loadsnap\<close>: the graph, from the lines of the file.\<close>

definition load_graph ::
    "((int \<times> int) list \<Rightarrow> (int \<times> int) list) \<Rightarrow> string list \<Rightarrow> int graph" where
  "load_graph set_order lines =
     (let edges_to_add = set_order (read_edges lines);
          all_nodes = endpoints edges_to_add;
          g0 = add_nodes_from empty_graph (sort all_nodes)
      in add_edges_from g0 edges_to_add)"

text \<open>The whole function. On a file that yields no edge the graph has no nodes, and
  \<open>nx.adjacency_matrix\<close> raises.\<close>

definition loadsnap ::
    "((int \<times> int) list \<Rightarrow> (int \<times> int) list) \<Rightarrow> string list \<Rightarrow> error + (int graph \<times> csc \<times> csc)"
where
  "loadsnap set_order lines =
     (let g = load_graph set_order lines in
      case adjacency_matrix g of
        Inl e \<Rightarrow> Inl e
      | Inr adj_matrix \<Rightarrow>
          (let degrees = row_sums adj_matrix;
               deg_matrix = diags degrees
           in Inr (g, adj_matrix, deg_matrix)))"

section \<open>Notions used in the statements\<close>

text \<open>A list of classes: no node twice, no empty class; and two nodes being in one class.\<close>

definition classes_ok :: "'a list list \<Rightarrow> bool" where
  "classes_ok cs \<longleftrightarrow> distinct (concat cs) \<and> [] \<notin> set cs"

definition same_class :: "'a list list \<Rightarrow> 'a \<Rightarrow> 'a \<Rightarrow> bool" where
  "same_class cs u v \<longleftrightarrow> (\<exists>c\<in>set cs. u \<in> set c \<and> v \<in> set c)"

text \<open>No node is its own neighbour.\<close>

definition loop_free :: "'a graph \<Rightarrow> bool" where
  "loop_free g \<longleftrightarrow> (\<forall>u. u \<notin> set (adj g u))"

section \<open>Example inputs\<close>

text \<open>The file written by the example at the end of \<open>datasets.py\<close>.\<close>

definition sample_lines :: "string list" where
  "sample_lines =
     [''# Sample graph file'', ''0 1'', ''0 2'', ''1 2'', ''2 3'', ''3 3'', ''0 1'']"

text \<open>The six edge lines of that file.\<close>

definition scenario_lines :: "string list" where
  "scenario_lines = [''0 1'', ''0 2'', ''1 2'', ''2 3'', ''3 3'', ''0 1'']"

text \<open>Lines that yield no edge: a self-loop, a comment, a token that is not an integer,
  and a single token.\<close>

definition rejected_lines :: "string list" where
  "rejected_lines = [''3 3'', ''# 1 2'', ''5 x'', ''7'']"

text \<open>An edge, and a self-loop on a node that occurs nowhere else.\<close>

definition loop_lines :: "string list" where
  "loop_lines = [''0 1'', ''3 3'']"

text \<open>The adjacency matrix of that graph, and the 3 by 3 matrix without entries.\<close>

definition sample_adj :: csc where
  "sample_adj =
     \<lparr>nrows = 4, ncols = 4, indptr = [0, 2, 4, 7, 8],
      indices = [1, 2, 0, 2, 0, 1, 3, 2], data = [1, 1, 1, 1, 1, 1, 1, 1]\<rparr>"

definition zero3 :: csc where
  "zero3 = \<lparr>nrows = 3, ncols = 3, indptr = [0, 0, 0, 0], indices = [], data = []\<rparr>"

section \<open>Lemmas about graphs and their components\<close>

subsection \<open>Graph operations\<close>

lemma set_py_set_add [simp]: "set (py_set_add xs x) = insert x (set xs)"
  by (auto simp: py_set_add_def)

lemma distinct_py_set_add [simp]: "distinct (py_set_add xs x) = distinct xs"
  by (auto simp: py_set_add_def)

lemma set_nodes_add_node [simp]: "set (nodes (add_node g u)) = insert u (set (nodes g))"
  by (auto simp: add_node_def)

lemma nodes_add_node_mem: "u \<in> set (nodes g) \<Longrightarrow> add_node g u = g"
  by (simp add: add_node_def)

lemma graph_ok_add_node: "graph_ok g \<Longrightarrow> graph_ok (add_node g u)"
  by (auto simp: graph_ok_def add_node_def split: if_splits)

lemma edge_rel_add_node: "graph_ok g \<Longrightarrow> edge_rel (add_node g u) = edge_rel g"
  by (auto simp: graph_ok_def add_node_def edge_rel_def split: if_splits)

lemma loop_free_add_node: "loop_free g \<Longrightarrow> loop_free (add_node g u)"
  by (auto simp: loop_free_def add_node_def split: if_splits)

lemma nodes_add_edge: "nodes (add_edge g u v) = nodes (add_node (add_node g u) v)"
  by (simp add: add_edge_def Let_def)

lemma set_nodes_add_edge [simp]: "set (nodes (add_edge g u v)) = insert u (insert v (set (nodes g)))"
  by (auto simp: nodes_add_edge)

lemma nodes_add_edge_mem:
  "u \<in> set (nodes g) \<Longrightarrow> v \<in> set (nodes g) \<Longrightarrow> nodes (add_edge g u v) = nodes g"
  by (simp add: nodes_add_edge nodes_add_node_mem)

lemma set_adj_add_edge:
  "set (adj (add_edge g u v) x) =
     set (adj (add_node (add_node g u) v) x) \<union> (if x = u then {v} else {}) \<union> (if x = v then {u} else {})"
  by (auto simp: add_edge_def Let_def)

lemma edge_rel_add_edge:
  "graph_ok g \<Longrightarrow> edge_rel (add_edge g u v) = edge_rel g \<union> {(u, v), (v, u)}"
proof -
  assume ok: "graph_ok g"
  have "edge_rel (add_node (add_node g u) v) = edge_rel g"
    using ok by (simp add: edge_rel_add_node graph_ok_add_node)
  then have "\<And>x. set (adj (add_node (add_node g u) v) x) = set (adj g x)"
    by (auto simp: edge_rel_def)
  then show ?thesis
    by (auto simp: edge_rel_def set_adj_add_edge split: if_splits)
qed

lemma graph_ok_edge_rel:
  "graph_ok g \<longleftrightarrow> distinct (nodes g) \<and> edge_rel g \<subseteq> set (nodes g) \<times> set (nodes g) \<and> sym (edge_rel g)"
  unfolding graph_ok_def edge_rel_def sym_def by auto

lemma distinct_nodes_add_node: "distinct (nodes g) \<Longrightarrow> distinct (nodes (add_node g u))"
  by (auto simp: add_node_def)

lemma graph_ok_add_edge: "graph_ok g \<Longrightarrow> graph_ok (add_edge g u v)"
proof -
  assume ok: "graph_ok g"
  then have d: "distinct (nodes (add_edge g u v))"
    by (simp add: nodes_add_edge distinct_nodes_add_node graph_ok_def)
  from ok show ?thesis
    unfolding graph_ok_edge_rel[of "add_edge g u v"] 
    using d by (auto simp: edge_rel_add_edge graph_ok_edge_rel sym_def)
qed

lemma loop_free_edge_rel: "loop_free g \<longleftrightarrow> irrefl (edge_rel g)"
  by (auto simp: loop_free_def edge_rel_def irrefl_def)

lemma loop_free_add_edge: "graph_ok g \<Longrightarrow> loop_free g \<Longrightarrow> u \<noteq> v \<Longrightarrow> loop_free (add_edge g u v)"
  by (auto simp: loop_free_edge_rel edge_rel_add_edge irrefl_def)

lemma graph_ok_empty: "graph_ok empty_graph" "loop_free empty_graph" "edge_rel empty_graph = {}"
  by (auto simp: graph_ok_def empty_graph_def loop_free_def edge_rel_def)

lemma add_nodes_from_props:
  "graph_ok g \<Longrightarrow> graph_ok (add_nodes_from g us) \<and> edge_rel (add_nodes_from g us) = edge_rel g
     \<and> set (nodes (add_nodes_from g us)) = set (nodes g) \<union> set us"
  unfolding add_nodes_from_def
  by (induction us arbitrary: g) (auto simp: graph_ok_add_node edge_rel_add_node)

lemma nodes_add_nodes_from_empty:
  "distinct us \<Longrightarrow> nodes (add_nodes_from empty_graph us) = us"
proof -
  have "\<And>g. distinct (nodes g @ us) \<Longrightarrow> nodes (fold (\<lambda>u h. add_node h u) us g) = nodes g @ us"
  proof (induction us)
    case Nil
    then show ?case by simp
  next
    case (Cons a us)
    have "nodes (add_node g a) = nodes g @ [a]" using Cons.prems by (simp add: add_node_def)
    with Cons.IH[of "add_node g a"] Cons.prems show ?case by simp
  qed
  from this[of empty_graph] show "distinct us \<Longrightarrow> nodes (add_nodes_from empty_graph us) = us"
    by (simp add: add_nodes_from_def empty_graph_def)
qed

subsection \<open>Classes\<close>

lemma classes_disjoint:
  assumes "classes_ok cs" "c \<in> set cs" "d \<in> set cs" "x \<in> set c" "x \<in> set d"
  shows "c = d"
  using assms unfolding classes_ok_def
  by (metis distinct_concat_iff disjoint_iff)

lemma same_class_trans:
  "classes_ok cs \<Longrightarrow> same_class cs u v \<Longrightarrow> same_class cs v w \<Longrightarrow> same_class cs u w"
  unfolding same_class_def by (metis classes_disjoint)

lemma same_class_sym: "same_class cs u v \<Longrightarrow> same_class cs v u"
  unfolding same_class_def by auto

lemma same_class_refl: "same_class cs u u \<longleftrightarrow> u \<in> set (concat cs)"
  unfolding same_class_def by auto

lemma classes_ok_Cons: "classes_ok (c # cs) \<Longrightarrow> classes_ok cs"
  by (auto simp: classes_ok_def)

lemma distinct_concat_filter:
  "distinct (concat cs) \<Longrightarrow> distinct (concat (filter P cs) @ concat (filter (\<lambda>d. \<not> P d) cs))"
  by (induction cs) auto

lemma set_concat_merge [simp]: "set (concat (merge_classes a b cs)) = set (concat cs)"
  by (induction cs) auto

lemma classes_ok_merge: "classes_ok cs \<Longrightarrow> classes_ok (merge_classes a b cs)"
proof (induction cs)
  case Nil
  then show ?case by simp
next
  case (Cons c cs)
  show ?case
  proof (cases "a \<in> set c \<or> b \<in> set c")
    case True
    have "distinct (concat (filter (\<lambda>d. a \<in> set d \<or> b \<in> set d) cs) @ concat (filter (\<lambda>d. \<not> (a \<in> set d \<or> b \<in> set d)) cs))"
      using Cons.prems by (intro distinct_concat_filter) (simp add: classes_ok_def)
    with Cons.prems True show ?thesis
      by (auto simp: classes_ok_def)
  next
    case False
    with Cons show ?thesis
      using set_concat_merge[of a b cs] by (auto simp: classes_ok_def simp del: set_concat_merge)
  qed
qed

lemma same_class_merge:
  assumes "classes_ok cs" "a \<in> set (concat cs)" "b \<in> set (concat cs)"
  shows "same_class (merge_classes a b cs) u v \<longleftrightarrow>
     same_class cs u v \<or> (same_class cs u a \<and> same_class cs b v) \<or> (same_class cs u b \<and> same_class cs a v)"
  using assms
proof (induction cs)
  case Nil
  then show ?case by simp
next
  case (Cons c cs)
  let ?hit = "\<lambda>d. a \<in> set d \<or> b \<in> set d"
  show ?case
  proof (cases "?hit c")
    case True
    have tr: "\<And>x y z. same_class (c # cs) x y \<Longrightarrow> same_class (c # cs) y z \<Longrightarrow> same_class (c # cs) x z"
      using same_class_trans[OF Cons.prems(1)] by blast
    have inhit: "\<And>x. x \<in> set c \<union> set (concat (filter ?hit cs)) \<longleftrightarrow>
        same_class (c # cs) x a \<or> same_class (c # cs) x b"
      using True by (auto simp: same_class_def)
    have m: "merge_classes a b (c # cs) = (c @ concat (filter ?hit cs)) # filter (\<lambda>d. \<not> ?hit d) cs"
      using True by simp
    have lhs: "same_class (merge_classes a b (c # cs)) u v \<longleftrightarrow>
        ((same_class (c # cs) u a \<or> same_class (c # cs) u b) \<and> (same_class (c # cs) v a \<or> same_class (c # cs) v b))
        \<or> (\<exists>d\<in>set cs. \<not> ?hit d \<and> u \<in> set d \<and> v \<in> set d)"
      unfolding m using inhit[of u] inhit[of v] by (simp add: same_class_def) blast
    have nh: "(\<exists>d\<in>set cs. \<not> ?hit d \<and> u \<in> set d \<and> v \<in> set d) \<longleftrightarrow>
        same_class (c # cs) u v \<and> \<not> same_class (c # cs) u a \<and> \<not> same_class (c # cs) u b"
    proof
      assume "\<exists>d\<in>set cs. \<not> ?hit d \<and> u \<in> set d \<and> v \<in> set d"
      then obtain d where d: "d \<in> set cs" "\<not> ?hit d" "u \<in> set d" "v \<in> set d" by blast
      then have uv: "same_class (c # cs) u v" by (auto simp: same_class_def)
      have "\<not> same_class (c # cs) u x" if "x \<in> {a, b}" for x
      proof
        assume "same_class (c # cs) u x"
        then obtain e where e: "e \<in> set (c # cs)" "u \<in> set e" "x \<in> set e" by (auto simp: same_class_def)
        with classes_disjoint[OF Cons.prems(1), of e d u] d have "e = d" by auto
        with e d that show False by auto
      qed
      with uv show "same_class (c # cs) u v \<and> \<not> same_class (c # cs) u a \<and> \<not> same_class (c # cs) u b"
        by simp
    next
      assume h: "same_class (c # cs) u v \<and> \<not> same_class (c # cs) u a \<and> \<not> same_class (c # cs) u b"
      then obtain d where d: "d \<in> set (c # cs)" "u \<in> set d" "v \<in> set d" by (auto simp: same_class_def)
      with h have "\<not> ?hit d" by (auto simp: same_class_def)
      with True d show "\<exists>d\<in>set cs. \<not> ?hit d \<and> u \<in> set d \<and> v \<in> set d" by auto
    qed
    show ?thesis unfolding lhs nh
      using tr same_class_sym[of "c # cs"] by blast
  next
    case False
    then have m: "merge_classes a b (c # cs) = c # merge_classes a b cs" by simp
    from False Cons.prems have ab: "a \<in> set (concat cs)" "b \<in> set (concat cs)" by auto
    note IH = Cons.IH[OF classes_ok_Cons[OF Cons.prems(1)] ab]
    have sc: "\<And>cs' x y. same_class (c # cs') x y \<longleftrightarrow> (x \<in> set c \<and> y \<in> set c) \<or> same_class cs' x y"
      by (auto simp: same_class_def)
    show ?thesis unfolding m sc IH using False by blast
  qed
qed

lemma distinct_classes: "classes_ok cs \<Longrightarrow> distinct cs"
  unfolding classes_ok_def by (metis distinct_concat_iff removeAll_id)

lemma length_merge:
  assumes "classes_ok cs" "a \<in> set (concat cs)" "b \<in> set (concat cs)" "\<not> same_class cs a b"
  shows "length (merge_classes a b cs) + 1 = length cs"
  using assms
proof (induction cs)
  case Nil
  then show ?case by simp
next
  case (Cons c cs)
  let ?hit = "\<lambda>d. a \<in> set d \<or> b \<in> set d"
  show ?case
  proof (cases "?hit c")
    case True
    from Cons.prems(4) have notboth: "\<not> (a \<in> set c \<and> b \<in> set c)" by (auto simp: same_class_def)
    define x where "x = (if a \<in> set c then b else a)"
    have xc: "x \<notin> set c" "x \<in> {a, b}" using True notboth by (auto simp: x_def)
    with Cons.prems obtain d where d: "d \<in> set cs" "x \<in> set d" by auto
    have other: "\<And>y e. y \<in> {a, b} \<Longrightarrow> y \<noteq> x \<Longrightarrow> e \<in> set cs \<Longrightarrow> y \<notin> set e"
    proof
      fix y e assume y: "y \<in> {a, b}" "y \<noteq> x" "e \<in> set cs" "y \<in> set e"
      then have "y \<in> set c" using True by (auto simp: x_def split: if_splits)
      with classes_disjoint[OF Cons.prems(1), of c e y] y have "c = e" by auto
      with y(3) distinct_classes[OF Cons.prems(1)] show False by auto
    qed
    have "set (filter ?hit cs) = {d}"
    proof (rule set_eqI)
      fix e
      show "e \<in> set (filter ?hit cs) \<longleftrightarrow> e \<in> {d}"
      proof
        assume "e \<in> set (filter ?hit cs)"
        then have e: "e \<in> set cs" "?hit e" by auto
        with other[of _ e] xc have "x \<in> set e" by auto
        with classes_disjoint[OF Cons.prems(1), of e d x] e d show "e \<in> {d}" by auto
      next
        assume "e \<in> {d}"
        with d xc show "e \<in> set (filter ?hit cs)" by auto
      qed
    qed
    moreover have "distinct (filter ?hit cs)"
      using distinct_classes[OF Cons.prems(1)] by simp
    ultimately have "length (filter ?hit cs) = 1"
      by (metis distinct_card card.empty card_insert_disjoint finite.emptyI empty_iff One_nat_def)
    moreover have "length (filter ?hit cs) + length (filter (\<lambda>d. \<not> ?hit d) cs) = length cs"
      by (rule sum_length_filter_compl)
    ultimately show ?thesis using True by simp
  next
    case False
    then have m: "merge_classes a b (c # cs) = c # merge_classes a b cs" by simp
    from False Cons.prems have ab: "a \<in> set (concat cs)" "b \<in> set (concat cs)" by auto
    from Cons.prems(4) have "\<not> same_class cs a b" by (auto simp: same_class_def)
    from Cons.IH[OF classes_ok_Cons[OF Cons.prems(1)] ab this] show ?thesis unfolding m by simp
  qed
qed

lemma length_classes_card:
  assumes "classes_ok cs"
  shows "length cs = card ((\<lambda>u. {v. same_class cs u v}) ` set (concat cs))"
proof -
  have cls: "{v. same_class cs u v} = set c" if "c \<in> set cs" "u \<in> set c" for c u
    using that classes_disjoint[OF assms] by (auto simp: same_class_def)
  have inj: "inj_on set (set cs)"
  proof (rule inj_onI)
    fix c d assume cd: "c \<in> set cs" "d \<in> set cs" "set c = set d"
    with assms have "c \<noteq> []" by (auto simp: classes_ok_def)
    then obtain x where "x \<in> set c" by (cases c) auto
    with cd classes_disjoint[OF assms, of c d x] show "c = d" by auto
  qed
  have "(\<lambda>u. {v. same_class cs u v}) ` set (concat cs) = set ` set cs"
  proof (rule set_eqI, rule iffI)
    fix X assume "X \<in> (\<lambda>u. {v. same_class cs u v}) ` set (concat cs)"
    then obtain u c where "u \<in> set c" "c \<in> set cs" "X = {v. same_class cs u v}" by auto
    with cls[of c u] show "X \<in> set ` set cs" by auto
  next
    fix X assume "X \<in> set ` set cs"
    then obtain c where c: "c \<in> set cs" "X = set c" by auto
    with assms have "c \<noteq> []" by (auto simp: classes_ok_def)
    then obtain x where x: "x \<in> set c" by (cases c) auto
    with c cls[of c x] have "X = {v. same_class cs x v}" "x \<in> set (concat cs)" by auto
    then show "X \<in> (\<lambda>u. {v. same_class cs u v}) ` set (concat cs)" by blast
  qed
  then have "card ((\<lambda>u. {v. same_class cs u v}) ` set (concat cs)) = card (set ` set cs)" by simp
  also have "\<dots> = card (set cs)" using inj by (rule card_image)
  also have "\<dots> = length cs" using distinct_classes[OF assms] by (rule distinct_card)
  finally show ?thesis by simp
qed

lemma length_classes_unique:
  assumes "classes_ok cs" "classes_ok ds" "\<And>u v. same_class cs u v \<longleftrightarrow> same_class ds u v"
  shows "length cs = length ds"
proof -
  have "set (concat cs) = set (concat ds)"
    using assms(3) same_class_refl[of cs] same_class_refl[of ds] by blast
  then show ?thesis
    using assms(3) by (simp add: length_classes_card[OF assms(1)] length_classes_card[OF assms(2)])
qed

section \<open>Lemmas about the neighbourhood query\<close>

lemma py_max_Max: "xs \<noteq> [] \<Longrightarrow> py_max xs = Max (set xs)"
  by (cases xs) (simp_all add: Max.set_eq_fold [symmetric])

lemma py_min_Min: "xs \<noteq> [] \<Longrightarrow> py_min xs = Min (set xs)"
  by (cases xs) (simp_all add: Min.set_eq_fold [symmetric])

lemma py_max_ge_iff: "xs \<noteq> [] \<Longrightarrow> n \<le> py_max xs \<longleftrightarrow> (\<exists>i\<in>set xs. n \<le> i)"
  by (simp add: py_max_Max Max_ge_iff)

lemma py_min_less_iff: "xs \<noteq> [] \<Longrightarrow> py_min xs < n \<longleftrightarrow> (\<exists>i\<in>set xs. i < n)"
  by (simp add: py_min_Min Min_less_iff)

lemma set_np_slice: "set (np_slice xs s e) \<subseteq> set xs"
  unfolding np_slice_def by (meson set_take_subset set_drop_subset subset_trans)

lemma collect_neighbors_ok:
  assumes "length (indptr m) = ncols m + 1" "nrows m = ncols m"
    and "\<forall>i\<in>set idxs. 0 \<le> i \<and> i < int (nrows m)"
  shows "\<exists>extra reads'. collect_neighbors m idxs acc reads = (Inr (acc @ extra), reads')
     \<and> set extra \<subseteq> int ` set (indices m)"
  using assms(3)
proof (induction idxs arbitrary: acc reads)
  case Nil
  then show ?case by simp
next
  case (Cons idx rest)
  from Cons.prems have r: "0 \<le> idx" "idx < int (nrows m)" by simp_all
  with assms(1,2) obtain s e where
    g: "np_get (indptr m) idx = Inr s" "np_get (indptr m) (idx + 1) = Inr e"
    by (simp add: np_get_def)
  let ?new = "map int (np_slice (indices m) s e)"
  from Cons.IH[of "acc @ ?new" "reads @ [Indptr, Indptr, Indices]"] Cons.prems
  obtain extra reads' where
    e: "collect_neighbors m rest (acc @ ?new) (reads @ [Indptr, Indptr, Indices])
          = (Inr ((acc @ ?new) @ extra), reads')"
       "set extra \<subseteq> int ` set (indices m)"
    by auto
  have "set ?new \<subseteq> int ` set (indices m)" using set_np_slice[of "indices m" s e] by auto
  with e g show ?case by (intro exI[of _ "?new @ extra"] exI[of _ reads']) simp
qed

lemma gni_empty: "get_neighborhood_indices [] m = (Inr [], [Shape])"
  by (simp add: get_neighborhood_indices_def)

lemma gni_ok:
  assumes "csc_square m" "\<forall>i\<in>set idxs. 0 \<le> i \<and> i < int (nrows m)"
  shows "\<exists>res reads. get_neighborhood_indices idxs m = (Inr res, reads) \<and> sorted res \<and> distinct res
     \<and> set idxs \<subseteq> set res \<and> (\<forall>x\<in>set res. 0 \<le> x \<and> x < int (nrows m))"
proof (cases "idxs = []")
  case True
  then show ?thesis by (simp add: gni_empty)
next
  case False
  from assms(1) have sq: "length (indptr m) = ncols m + 1" "nrows m = ncols m"
    "\<forall>i\<in>set (indices m). i < nrows m"
    by (auto simp add: csc_square_def list_all_iff)
  from collect_neighbors_ok[OF sq(1,2) assms(2), of idxs "[Shape]"] obtain extra reads where
    c: "collect_neighbors m idxs idxs [Shape] = (Inr (idxs @ extra), reads)"
       "set extra \<subseteq> int ` set (indices m)"
    by blast
  have nomax: "\<not> int (nrows m) \<le> py_max idxs" using False assms(2) by (auto simp add: py_max_ge_iff)
  have nomin: "\<not> py_min idxs < 0" using False assms(2) by (auto simp add: py_min_less_iff)
  have res: "get_neighborhood_indices idxs m = (Inr (sort (remdups (idxs @ extra))), reads)"
    using False nomax nomin c(1)
    by (simp add: get_neighborhood_indices_def Let_def list_all_iff)
  have "\<forall>x\<in>set extra. 0 \<le> x \<and> x < int (nrows m)" using c(2) sq(3) by auto
  with assms(2) res show ?thesis by auto
qed

lemma gni_oob:
  assumes "\<exists>i\<in>set idxs. int (nrows m) \<le> i"
  shows "get_neighborhood_indices idxs m = (Inl (ValueError msg_out_of_bounds), [Shape])"
proof -
  from assms have ne: "idxs \<noteq> []" by auto
  with assms show ?thesis by (simp add: get_neighborhood_indices_def py_max_ge_iff)
qed

lemma gni_neg:
  assumes "\<forall>i\<in>set idxs. i < int (nrows m)" "\<exists>i\<in>set idxs. i < 0"
  shows "get_neighborhood_indices idxs m = (Inl (ValueError msg_negative), [Shape])"
proof -
  from assms have ne: "idxs \<noteq> []" by auto
  with assms have "\<not> int (nrows m) \<le> py_max idxs" by (auto simp add: py_max_ge_iff)
  with ne assms(2) show ?thesis by (simp add: get_neighborhood_indices_def py_min_less_iff)
qed

subsection \<open>The components are the classes of path connection\<close>

lemma rtrancl_insert_both:
  "(u, v) \<in> (T \<union> {(a, b), (b, a)})\<^sup>* \<longleftrightarrow>
     (u, v) \<in> T\<^sup>* \<or> ((u, a) \<in> T\<^sup>* \<and> (b, v) \<in> T\<^sup>*) \<or> ((u, b) \<in> T\<^sup>* \<and> (a, v) \<in> T\<^sup>*)"
  (is "?L \<longleftrightarrow> ?R u v")
proof
  assume ?L
  then show "?R u v"
  proof (induction rule: rtrancl_induct)
    case base
    then show ?case by simp
  next
    case (step y z)
    from step.hyps(2) consider "(y, z) \<in> T" | "y = a" "z = b" | "y = b" "z = a" by auto
    then show ?case
    proof cases
      case 1
      with step.IH show ?thesis by (meson rtrancl.rtrancl_into_rtrancl)
    next
      case 2
      with step.IH show ?thesis by auto
    next
      case 3
      with step.IH show ?thesis by auto
    qed
  qed
next
  let ?T' = "T \<union> {(a, b), (b, a)}"
  have sub: "\<And>x y. (x, y) \<in> T\<^sup>* \<Longrightarrow> (x, y) \<in> ?T'\<^sup>*"
    by (meson rtrancl_mono subsetD sup_ge1)
  have ab: "(a, b) \<in> ?T'\<^sup>*" "(b, a) \<in> ?T'\<^sup>*" by auto
  assume "?R u v"
  then show ?L
    using sub ab by (meson rtrancl_trans)
qed

lemma components_fold:
  assumes "classes_ok cs" "set (concat cs) = V" "\<forall>e\<in>set es. fst e \<in> V \<and> snd e \<in> V"
    and "\<forall>u v. same_class cs u v \<longleftrightarrow> u \<in> V \<and> v \<in> V \<and> (u, v) \<in> (S \<union> S\<inverse>)\<^sup>*"
  shows "classes_ok (fold (\<lambda>(u, v) cs. merge_classes u v cs) es cs)
    \<and> set (concat (fold (\<lambda>(u, v) cs. merge_classes u v cs) es cs)) = V
    \<and> (\<forall>u v. same_class (fold (\<lambda>(u, v) cs. merge_classes u v cs) es cs) u v \<longleftrightarrow>
          u \<in> V \<and> v \<in> V \<and> (u, v) \<in> ((S \<union> set es) \<union> (S \<union> set es)\<inverse>)\<^sup>*)"
  using assms
proof (induction es arbitrary: cs S)
  case Nil
  then show ?case by simp
next
  case (Cons e es)
  obtain a b where e: "e = (a, b)" by (cases e)
  with Cons.prems have ab: "a \<in> set (concat cs)" "b \<in> set (concat cs)" "a \<in> V" "b \<in> V" by auto
  let ?cs = "merge_classes a b cs"
  let ?S = "insert (a, b) S"
  have 1: "classes_ok ?cs" using Cons.prems(1) by (rule classes_ok_merge)
  have 2: "set (concat ?cs) = V" using Cons.prems(2) by (simp only: set_concat_merge)
  have 3: "\<forall>e\<in>set es. fst e \<in> V \<and> snd e \<in> V" using Cons.prems(3) by simp
  have eq: "?S \<union> ?S\<inverse> = (S \<union> S\<inverse>) \<union> {(a, b), (b, a)}" by auto
  have 4: "\<forall>u v. same_class ?cs u v \<longleftrightarrow> u \<in> V \<and> v \<in> V \<and> (u, v) \<in> (?S \<union> ?S\<inverse>)\<^sup>*"
    unfolding eq rtrancl_insert_both same_class_merge[OF Cons.prems(1) ab(1,2)]
    using Cons.prems(4) ab(3,4) by blast
  have "?S \<union> set es = S \<union> set (e # es)" using e by auto
  with Cons.IH[OF 1 2 3 4] show ?case using e by simp
qed

lemma set_edge_pairs: "set (edge_pairs g) = {(u, v). u \<in> set (nodes g) \<and> v \<in> set (adj g u)}"
  by (auto simp: edge_pairs_def)

lemma set_edge_pairs_ok: "graph_ok g \<Longrightarrow> set (edge_pairs g) = edge_rel g"
  by (auto simp: set_edge_pairs edge_rel_def graph_ok_def)

lemma components_spec:
  assumes "graph_ok g"
  shows "classes_ok (connected_components g)"
    and "set (concat (connected_components g)) = set (nodes g)"
    and "same_class (connected_components g) u v \<longleftrightarrow>
           u \<in> set (nodes g) \<and> v \<in> set (nodes g) \<and> (u, v) \<in> (edge_rel g)\<^sup>*"
proof -
  let ?V = "set (nodes g)"
  let ?cs = "map (\<lambda>u. [u]) (nodes g)"
  have c: "concat ?cs = nodes g" by (induction "nodes g") (simp_all add: concat_map_singleton)
  have 1: "classes_ok ?cs" using assms unfolding classes_ok_def c by (auto simp: graph_ok_def)
  have 2: "set (concat ?cs) = ?V" by (simp add: c)
  have 3: "\<forall>e\<in>set (edge_pairs g). fst e \<in> ?V \<and> snd e \<in> ?V"
    using assms by (auto simp: set_edge_pairs graph_ok_def)
  have 4: "\<forall>u v. same_class ?cs u v \<longleftrightarrow> u \<in> ?V \<and> v \<in> ?V \<and> (u, v) \<in> ({} \<union> {}\<inverse>)\<^sup>*"
    by (auto simp: same_class_def)
  have sym: "edge_rel g \<union> (edge_rel g)\<inverse> = edge_rel g"
    using assms by (auto simp: graph_ok_def edge_rel_def)
  note r = components_fold[OF 1 2 3 4, folded connected_components_def]
  from r show "classes_ok (connected_components g)" by blast
  from r show "set (concat (connected_components g)) = set (nodes g)" by blast
  from r show "same_class (connected_components g) u v \<longleftrightarrow>
           u \<in> set (nodes g) \<and> v \<in> set (nodes g) \<and> (u, v) \<in> (edge_rel g)\<^sup>*"
    by (simp add: set_edge_pairs_ok[OF assms] sym)
qed

lemma components_nonempty:
  assumes "graph_ok g" "nodes g \<noteq> []"
  shows "connected_components g \<noteq> []"
  using components_spec(2)[OF assms(1)] assms(2) by auto

lemma single_component_iff:
  assumes "graph_ok g" "nodes g \<noteq> []"
  shows "length (connected_components g) = 1 \<longleftrightarrow> path_connected g"
proof
  let ?cs = "connected_components g"
  assume "length ?cs = 1"
  then obtain c where c: "?cs = [c]" by (cases ?cs) auto
  then have "set c = set (nodes g)" using components_spec(2)[OF assms(1)] by simp
  then have "\<forall>u\<in>set (nodes g). \<forall>v\<in>set (nodes g). same_class ?cs u v"
    unfolding c by (simp add: same_class_def)
  then show "path_connected g"
    using assms(2) components_spec(3)[OF assms(1)] by (simp add: path_connected_def)
next
  let ?cs = "connected_components g"
  assume pc: "path_connected g"
  note ok = components_spec(1)[OF assms(1)]
  from components_nonempty[OF assms] obtain c cs where cs: "?cs = c # cs" by (cases ?cs) auto
  have "d = c" if "d \<in> set ?cs" for d
  proof -
    from ok that cs have "d \<noteq> []" "c \<noteq> []" by (auto simp: classes_ok_def)
    then obtain x y where xy: "x \<in> set d" "y \<in> set c" by (cases d; cases c) auto
    with that cs components_spec(2)[OF assms(1)] have "x \<in> set (nodes g)" "y \<in> set (nodes g)"
      by auto
    with pc components_spec(3)[OF assms(1), of x y] have "same_class ?cs x y"
      by (simp add: path_connected_def)
    then obtain e where e: "e \<in> set ?cs" "x \<in> set e" "y \<in> set e" by (auto simp: same_class_def)
    from classes_disjoint[OF ok e(1) that e(2) xy(1)] classes_disjoint[OF ok e(1) _ e(3) xy(2)] cs
    show "d = c" by simp
  qed
  then have "set cs \<subseteq> {c}" using cs by auto
  moreover have "c \<notin> set cs" using distinct_classes[OF ok] cs by simp
  ultimately have "cs = []" by (cases cs) auto
  with cs show "length ?cs = 1" by simp
qed

lemma components_add_edge:
  assumes "graph_ok g" "a \<in> set (nodes g)" "b \<in> set (nodes g)"
    and "\<not> same_class (connected_components g) a b"
  shows "length (connected_components (add_edge g a b)) + 1 = length (connected_components g)"
proof -
  let ?cs = "connected_components g"
  let ?g' = "add_edge g a b"
  have ok': "graph_ok ?g'" using assms(1) by (rule graph_ok_add_edge)
  have n': "set (nodes ?g') = set (nodes g)" using assms(2,3) by auto
  have ab: "a \<in> set (concat ?cs)" "b \<in> set (concat ?cs)"
    using assms(2,3) components_spec(2)[OF assms(1)] by simp_all
  have "length (connected_components ?g') = length (merge_classes a b ?cs)"
  proof (rule length_classes_unique)
    show "classes_ok (connected_components ?g')" using ok' by (rule components_spec(1))
    show "classes_ok (merge_classes a b ?cs)"
      using components_spec(1)[OF assms(1)] by (rule classes_ok_merge)
    fix u v
    show "same_class (connected_components ?g') u v \<longleftrightarrow> same_class (merge_classes a b ?cs) u v"
      unfolding components_spec(3)[OF ok'] same_class_merge[OF components_spec(1)[OF assms(1)] ab]
        components_spec(3)[OF assms(1)] n' edge_rel_add_edge[OF assms(1)] rtrancl_insert_both
      using assms(2,3) by blast
  qed
  with length_merge[OF components_spec(1)[OF assms(1)] ab assms(4)] show ?thesis by simp
qed

subsection \<open>The repair loop\<close>

lemma random_sample2_ok:
  assumes "2 \<le> m"
  shows "\<exists>i j r'. random_sample2 m r = Inr (i, j, r') \<and> i < m \<and> j < m \<and> i \<noteq> j"
proof -
  define j0 where "j0 = shd r mod m"
  define j1 where "j1 = shd (stl r) mod (m - 1)"
  have a: "j0 < m" "j1 < m - 1" using assms by (simp_all add: j0_def j1_def)
  have "random_sample2 m r = Inr (j0, if j1 = j0 then m - 1 else j1, stl (stl r))"
    using assms by (simp add: random_sample2_def randbelow_def j0_def j1_def)
  moreover have "(if j1 = j0 then m - 1 else j1) < m" using a assms by auto
  moreover have "j0 \<noteq> (if j1 = j0 then m - 1 else j1)" using a by auto
  ultimately show ?thesis using a(1) by blast
qed

lemma random_choice_ok:
  assumes "xs \<noteq> []"
  shows "\<exists>x r'. random_choice xs r = Inr (x, r') \<and> x \<in> set xs"
  using assms by (simp add: random_choice_def randbelow_def)

lemma pick_nodes_ok:
  assumes "classes_ok cs" "2 \<le> length cs"
  shows "\<exists>node1 node2 r' i j. pick_nodes cs r = Inr (node1, node2, r') \<and> i < length cs
     \<and> j < length cs \<and> i \<noteq> j \<and> node1 \<in> set (cs ! i) \<and> node2 \<in> set (cs ! j)"
proof -
  from random_sample2_ok[OF assms(2), of r] obtain i j r1 where
    s: "random_sample2 (length cs) r = Inr (i, j, r1)" "i < length cs" "j < length cs" "i \<noteq> j"
    by blast
  from assms(1) s(2,3) have ne: "cs ! i \<noteq> []" "cs ! j \<noteq> []"
    by (auto simp: classes_ok_def dest: nth_mem)
  from random_choice_ok[OF ne(1), of r1] obtain node1 r2 where
    c1: "random_choice (cs ! i) r1 = Inr (node1, r2)" "node1 \<in> set (cs ! i)" by blast
  from random_choice_ok[OF ne(2), of r2] obtain node2 r3 where
    c2: "random_choice (cs ! j) r2 = Inr (node2, r3)" "node2 \<in> set (cs ! j)" by blast
  have "pick_nodes cs r = Inr (node1, node2, r3)"
    by (simp add: pick_nodes_def s(1) c1(1) c2(1))
  with s c1 c2 show ?thesis by blast
qed

lemma different_classes:
  assumes "classes_ok cs" "i < length cs" "j < length cs" "i \<noteq> j"
    and "x \<in> set (cs ! i)" "y \<in> set (cs ! j)"
  shows "\<not> same_class cs x y" and "x \<noteq> y"
proof -
  show "\<not> same_class cs x y"
  proof
    assume "same_class cs x y"
    then obtain c where c: "c \<in> set cs" "x \<in> set c" "y \<in> set c" by (auto simp: same_class_def)
    from classes_disjoint[OF assms(1) c(1) _ c(2) assms(5)] assms(2) have "c = cs ! i" by simp
    moreover from classes_disjoint[OF assms(1) c(1) _ c(3) assms(6)] assms(3) have "c = cs ! j"
      by simp
    ultimately show False
      using distinct_classes[OF assms(1)] assms(2,3,4) by (simp add: nth_eq_iff_index_eq)
  qed
  then show "x \<noteq> y" using assms(2,5) by (auto simp: same_class_def)
qed

lemma repair_step:
  assumes "graph_ok g" "nodes g \<noteq> []" "length (connected_components g) \<noteq> 1"
  shows "\<exists>node1 node2 r'. pick_nodes (connected_components g) r = Inr (node1, node2, r')
     \<and> node1 \<in> set (nodes g) \<and> node2 \<in> set (nodes g) \<and> node1 \<noteq> node2
     \<and> \<not> same_class (connected_components g) node1 node2
     \<and> repair g r k = repair (add_edge g node1 node2) r' (Suc k)"
proof -
  let ?cs = "connected_components g"
  note ok = components_spec(1)[OF assms(1)]
  from components_nonempty[OF assms(1,2)] assms(3) have len: "2 \<le> length ?cs"
    by (cases ?cs) (auto simp: Suc_le_eq)
  from pick_nodes_ok[OF ok len, of r] obtain node1 node2 r' i j where
    p: "pick_nodes ?cs r = Inr (node1, node2, r')" "i < length ?cs" "j < length ?cs" "i \<noteq> j"
       "node1 \<in> set (?cs ! i)" "node2 \<in> set (?cs ! j)" by blast
  from p(2,3,5,6) have "node1 \<in> set (concat ?cs)" "node2 \<in> set (concat ?cs)"
    by (auto dest: nth_mem)
  then have n: "node1 \<in> set (nodes g)" "node2 \<in> set (nodes g)"
    by (simp_all only: components_spec(2)[OF assms(1)])
  have "repair g r k = repair (add_edge g node1 node2) r' (Suc k)"
    using assms(2,3) len p(1) by (subst repair.simps) (simp add: is_connected_def)
  with p(1) n different_classes[OF ok p(2,3,4,5,6)] show ?thesis by blast
qed

lemma repair_done:
  assumes "nodes g \<noteq> []" "length (connected_components g) = 1"
  shows "repair g r k = Some (Inr (g, r, k))"
  using assms by (subst repair.simps) (simp add: is_connected_def)

lemma repair_terminates:
  assumes "graph_ok g" "nodes g \<noteq> []"
  shows "\<exists>g' r'. repair g r k = Some (Inr (g', r', k + (length (connected_components g) - 1)))
     \<and> graph_ok g' \<and> nodes g' = nodes g \<and> length (connected_components g') = 1
     \<and> (loop_free g \<longrightarrow> loop_free g')"
  using assms
proof (induction "length (connected_components g)" arbitrary: g r k rule: less_induct)
  case less
  show ?case
  proof (cases "length (connected_components g) = 1")
    case True
    with repair_done[OF less.prems(2) True] less.prems show ?thesis by simp
  next
    case False
    from repair_step[OF less.prems False, of r k] obtain node1 node2 r1 where
      s: "node1 \<in> set (nodes g)" "node2 \<in> set (nodes g)" "node1 \<noteq> node2"
         "\<not> same_class (connected_components g) node1 node2"
         "repair g r k = repair (add_edge g node1 node2) r1 (Suc k)" by blast
    let ?g = "add_edge g node1 node2"
    have len: "length (connected_components ?g) + 1 = length (connected_components g)"
      using less.prems(1) s(1,2,4) by (rule components_add_edge)
    have ok: "graph_ok ?g" using less.prems(1) by (rule graph_ok_add_edge)
    have nd: "nodes ?g = nodes g" using s(1,2) by (rule nodes_add_edge_mem)
    have lf: "loop_free g \<longrightarrow> loop_free ?g"
      using less.prems(1) s(3) by (simp add: loop_free_add_edge)
    from len have lt: "length (connected_components ?g) < length (connected_components g)" by simp
    from less.hyps[OF lt ok, of r1 "Suc k"] nd less.prems(2) obtain g' r' where
      r: "repair ?g r1 (Suc k) = Some (Inr (g', r', Suc k + (length (connected_components ?g) - 1)))"
         "graph_ok g'" "nodes g' = nodes ?g" "length (connected_components g') = 1"
         "loop_free ?g \<longrightarrow> loop_free g'" by auto
    have "Suc k + (length (connected_components ?g) - 1) = k + (length (connected_components g) - 1)"
      using len components_nonempty[OF ok] nd less.prems(2) by (cases "connected_components ?g") auto
    with r s(5) nd lf show ?thesis by auto
  qed
qed

subsection \<open>The sampling loops\<close>

lemma distinct_upto: "distinct [i..j]"
  by simp

lemma sample_pair_inv:
  assumes "graph_ok (fst s)" "loop_free (fst s)" "i \<in> set (nodes (fst s))" "j \<in> set (nodes (fst s))" "i \<noteq> j"
  shows "graph_ok (fst (sample_pair p i j s)) \<and> loop_free (fst (sample_pair p i j s))
     \<and> nodes (fst (sample_pair p i j s)) = nodes (fst s)"
  using assms
  by (cases s) (auto simp: sample_pair_def Let_def graph_ok_add_edge loop_free_add_edge
      nodes_add_edge_mem split: prod.splits)

lemma sample_row_inv:
  assumes "graph_ok (fst s)" "loop_free (fst s)" "i \<in> set (nodes (fst s))"
    and "\<forall>j\<in>set js. j \<in> set (nodes (fst s)) \<and> i \<noteq> j"
  shows "graph_ok (fst (fold (\<lambda>j. sample_pair p i j) js s))
     \<and> loop_free (fst (fold (\<lambda>j. sample_pair p i j) js s))
     \<and> nodes (fst (fold (\<lambda>j. sample_pair p i j) js s)) = nodes (fst s)"
  using assms
proof (induction js arbitrary: s)
  case Nil
  then show ?case by simp
next
  case (Cons j js)
  from Cons.prems have j: "j \<in> set (nodes (fst s))" "i \<noteq> j" by simp_all
  note st = sample_pair_inv[OF Cons.prems(1,2,3) j, of p]
  from Cons.IH[of "sample_pair p i j s"] st Cons.prems show ?case by simp
qed

lemma sample_rows_inv:
  assumes "graph_ok (fst s)" "loop_free (fst s)" "nodes (fst s) = [0..n - 1]"
    and "set is \<subseteq> {0..n - 1}"
  shows "graph_ok (fst (fold (\<lambda>i. fold (\<lambda>j. sample_pair p i j) [i + 1..n - 1]) is s))
     \<and> loop_free (fst (fold (\<lambda>i. fold (\<lambda>j. sample_pair p i j) [i + 1..n - 1]) is s))
     \<and> nodes (fst (fold (\<lambda>i. fold (\<lambda>j. sample_pair p i j) [i + 1..n - 1]) is s)) = [0..n - 1]"
  using assms
proof (induction "is" arbitrary: s)
  case Nil
  then show ?case by simp
next
  case (Cons i "is")
  from Cons.prems have i: "i \<in> set (nodes (fst s))" by simp
  have js: "\<forall>j\<in>set [i + 1..n - 1]. j \<in> set (nodes (fst s)) \<and> i \<noteq> j"
    using Cons.prems by auto
  note st = sample_row_inv[OF Cons.prems(1,2) i js, of p]
  from Cons.IH[of "fold (\<lambda>j. sample_pair p i j) [i + 1..n - 1] s"] st Cons.prems
  show ?case by simp
qed

lemma sample_edges_inv:
  "graph_ok (fst (sample_edges n p r)) \<and> loop_free (fst (sample_edges n p r))
   \<and> nodes (fst (sample_edges n p r)) = [0..n - 1]"
proof -
  let ?g0 = "add_nodes_from empty_graph [0..n - 1]"
  have "graph_ok ?g0" using add_nodes_from_props[OF graph_ok_empty(1)] by blast
  moreover have "edge_rel ?g0 = {}"
    using add_nodes_from_props[OF graph_ok_empty(1), of "[0..n - 1]"] graph_ok_empty(3) by simp
  then have "loop_free ?g0" by (simp add: loop_free_edge_rel irrefl_def)
  moreover have "nodes ?g0 = [0..n - 1]" by (rule nodes_add_nodes_from_empty) simp
  ultimately show ?thesis
    unfolding sample_edges_def
    using sample_rows_inv[of "(?g0, r)" n "[0..n - 1]" p] by simp
qed

subsection \<open>The generator returns\<close>

lemmas graph_eval =
  sample_edges_def sample_pair_def random_random_def add_nodes_from_def add_node_def
  add_edge_def empty_graph_def py_set_add_def Let_def upto.simps

lemmas comp_eval = is_connected_def connected_components_def edge_pairs_def

lemmas pick_eval = pick_nodes_def random_sample2_def random_choice_def randbelow_def

lemma connected_graph_ok:
  assumes "1 \<le> n" "0 \<le> p" "p \<le> 1"
  shows "\<exists>g r' k. connected_graph n p r = Some (Inr (g, r', k))
     \<and> repair (fst (sample_edges n p r)) (snd (sample_edges n p r)) 0 = Some (Inr (g, r', k))
     \<and> graph_ok g \<and> loop_free g \<and> nodes g = [0..n - 1] \<and> length (connected_components g) = 1"
proof -
  obtain g0 r0 where s: "sample_edges n p r = (g0, r0)" by (cases "sample_edges n p r")
  from sample_edges_inv[of n p r] s have g0: "graph_ok g0" "loop_free g0" "nodes g0 = [0..n - 1]"
    by simp_all
  from g0(3) assms(1) have ne: "nodes g0 \<noteq> []" by (simp add: upto.simps)
  from repair_terminates[OF g0(1) ne, of r0 0] g0(2) obtain g r' where
    r: "repair g0 r0 0 = Some (Inr (g, r', length (connected_components g0) - 1))"
       "graph_ok g" "nodes g = nodes g0" "length (connected_components g) = 1" "loop_free g"
    by auto
  from r(3,4) ne have "is_connected g = Inr True" by (simp add: is_connected_def)
  with assms s r(1) have "connected_graph n p r = Some (Inr (g, r', length (connected_components g0) - 1))"
    by (simp add: connected_graph_def)
  with r g0(3) s show ?thesis by simp
qed

subsection \<open>Reading a CSC matrix built from its columns\<close>

lemma length_col_ptrs: "length (col_ptrs k cols) = length cols + 1"
  by (induction cols arbitrary: k) simp_all

lemma nth_col_ptrs:
  "j \<le> length cols \<Longrightarrow> col_ptrs k cols ! j = k + length (concat (take j cols))"
proof (induction cols arbitrary: k j)
  case Nil
  then show ?case by simp
next
  case (Cons c cols)
  then show ?case by (cases j) simp_all
qed

lemma column_csc_of_columns:
  assumes "j < length cols"
  shows "column (csc_of_columns n cols) j = cols ! j"
proof -
  let ?xs = "concat cols"
  let ?s = "length (concat (take j cols))"
  have z: "zip (map fst ?xs) (map snd ?xs) = ?xs" by (simp add: zip_map_fst_snd)
  have s: "col_ptrs 0 cols ! j = ?s" using assms by (simp add: nth_col_ptrs)
  have "take (Suc j) cols = take j cols @ [cols ! j]"
    using assms by (simp add: take_Suc_conv_app_nth)
  then have e: "col_ptrs 0 cols ! (j + 1) = ?s + length (cols ! j)"
    using assms by (simp add: nth_col_ptrs)
  have "?xs = concat (take j cols) @ concat (drop j cols)"
    by (metis append_take_drop_id concat_append)
  also have "drop j cols = cols ! j # drop (Suc j) cols"
    using assms by (simp add: Cons_nth_drop_Suc)
  finally have "?xs = concat (take j cols) @ cols ! j @ concat (drop (Suc j) cols)" by simp
  then have "take (length (cols ! j)) (drop ?s ?xs) = cols ! j"
    by (metis append_eq_conv_conj)
  with assms s e z show ?thesis
    by (simp add: column_def csc_of_columns_def length_col_ptrs np_slice_def)
qed

lemma column_out_of_range:
  "length cols \<le> j \<Longrightarrow> column (csc_of_columns n cols) j = []"
  by (simp add: column_def csc_of_columns_def length_col_ptrs)

lemma filter_eq_upt:
  "filter (\<lambda>k. P k \<and> k = i) [0..<n] = (if i < n \<and> P i then [i] else [])"
  by (induction n) (auto simp: less_Suc_eq)

lemma entry_indicator_column:
  "sum_list (map snd (filter (\<lambda>e. fst e = i) (map (\<lambda>k. (k, 1::real)) (filter P [0..<n]))))
     = (if i < n \<and> P i then 1 else 0)"
proof -
  have "filter (\<lambda>e. fst e = i) (map (\<lambda>k. (k, 1::real)) (filter P [0..<n]))
      = map (\<lambda>k. (k, 1)) (filter (\<lambda>k. P k \<and> k = i) [0..<n])"
    by (simp add: filter_map comp_def)
  then show ?thesis by (simp add: filter_eq_upt)
qed

lemma shape_adjacency_csc:
  "nrows (adjacency_csc g) = length (nodes g)" "ncols (adjacency_csc g) = length (nodes g)"
  by (simp_all add: adjacency_csc_def csc_of_columns_def Let_def)

lemma entry_adjacency_csc:
  "entry (adjacency_csc g) i j =
     (if i < length (nodes g) \<and> j < length (nodes g) \<and> nodes g ! j \<in> set (adj g (nodes g ! i))
      then 1 else 0)"
proof (cases "j < length (nodes g)")
  case True
  then show ?thesis
    by (simp add: entry_def adjacency_csc_def Let_def column_csc_of_columns
        entry_indicator_column)
next
  case False
  then show ?thesis
    by (simp add: entry_def adjacency_csc_def Let_def column_out_of_range)
qed

lemma adjacency_csc_square: "csc_square (adjacency_csc g)"
  by (auto simp: csc_square_def adjacency_csc_def csc_of_columns_def Let_def length_col_ptrs
      list_all_iff)

lemma adjacency_csc_props:
  assumes "graph_ok g" "loop_free g"
  shows "entry (adjacency_csc g) i j = entry (adjacency_csc g) j i"
    and "entry (adjacency_csc g) i j = 0 \<or> entry (adjacency_csc g) i j = 1"
    and "entry (adjacency_csc g) i i = 0"
proof -
  show "entry (adjacency_csc g) i j = entry (adjacency_csc g) j i"
    using assms(1) unfolding entry_adjacency_csc graph_ok_def by metis
  show "entry (adjacency_csc g) i j = 0 \<or> entry (adjacency_csc g) i j = 1"
    by (simp add: entry_adjacency_csc)
  show "entry (adjacency_csc g) i i = 0"
    using assms(2) by (simp add: entry_adjacency_csc loop_free_def)
qed

lemma entry_diags:
  "entry (diags d) i j = (if i = j \<and> i < length d then d ! i else 0)"
proof (cases "j < length d")
  case True
  then show ?thesis
    by (simp add: entry_def diags_def column_csc_of_columns)
next
  case False
  then show ?thesis
    by (auto simp add: entry_def diags_def column_out_of_range)
qed

lemma adjacency_matrix_nonempty:
  "nodes g \<noteq> [] \<Longrightarrow> adjacency_matrix g = Inr (adjacency_csc g)"
  by (simp add: adjacency_matrix_def)

lemma adjacency_matrix_empty:
  "nodes g = [] \<Longrightarrow> adjacency_matrix g = Inl (NetworkXError msg_no_nodes)"
  by (simp add: adjacency_matrix_def)

lemma adjacency_csc_cong:
  assumes "nodes g = nodes h" "\<And>u. set (adj g u) = set (adj h u)"
  shows "adjacency_csc g = adjacency_csc h"
  by (simp add: adjacency_csc_def assms)

subsection \<open>The loader\<close>

lemma set_load_line:
  "set (load_line es raw) =
     set es \<union> {(min u v, max u v) | u v. parse_line raw = Some (u, v) \<and> u \<noteq> v}"
  by (auto simp: load_line_def split: option.splits)

lemma distinct_load_line: "distinct es \<Longrightarrow> distinct (load_line es raw)"
  by (auto simp: load_line_def split: option.splits)

lemma read_edges_fold:
  "set (fold (\<lambda>raw es. load_line es raw) lines acc) =
     set acc \<union> {(min u v, max u v) | u v raw. raw \<in> set lines \<and> parse_line raw = Some (u, v) \<and> u \<noteq> v}
   \<and> (distinct acc \<longrightarrow> distinct (fold (\<lambda>raw es. load_line es raw) lines acc))"
proof (induction lines arbitrary: acc)
  case Nil
  then show ?case by simp
next
  case (Cons raw lines)
  have "set (load_line acc raw) \<union>
      {(min u v, max u v) | u v raw'. raw' \<in> set lines \<and> parse_line raw' = Some (u, v) \<and> u \<noteq> v}
    = set acc \<union>
      {(min u v, max u v) | u v raw'. raw' \<in> set (raw # lines) \<and> parse_line raw' = Some (u, v) \<and> u \<noteq> v}"
    unfolding set_load_line by auto
  with Cons.IH[of "load_line acc raw"] show ?case
    by (simp add: distinct_load_line)
qed

lemma set_read_edges:
  "set (read_edges lines) =
     {(min u v, max u v) | u v raw. raw \<in> set lines \<and> parse_line raw = Some (u, v) \<and> u \<noteq> v}"
  using read_edges_fold[of lines "[]"] by (simp add: read_edges_def)

lemma distinct_read_edges: "distinct (read_edges lines)"
  using read_edges_fold[of lines "[]"] by (simp add: read_edges_def)

lemma read_edges_ordered: "(s, d) \<in> set (read_edges lines) \<Longrightarrow> s < d"
  unfolding set_read_edges by auto

lemma endpoints_fold:
  "set (fold (\<lambda>(u, v) all_nodes. py_set_add (py_set_add all_nodes u) v) es acc) =
     set acc \<union> fst ` set es \<union> snd ` set es
   \<and> (distinct acc \<longrightarrow> distinct (fold (\<lambda>(u, v) all_nodes. py_set_add (py_set_add all_nodes u) v) es acc))"
proof (induction es arbitrary: acc)
  case Nil
  then show ?case by simp
next
  case (Cons e es)
  obtain u v where e: "e = (u, v)" by (cases e)
  from Cons.IH[of "py_set_add (py_set_add acc u) v"] show ?case
    unfolding e by auto
qed

lemma set_endpoints: "set (endpoints es) = fst ` set es \<union> snd ` set es"
  using endpoints_fold[of es "[]"] by (simp add: endpoints_def)

lemma distinct_endpoints: "distinct (endpoints es)"
  using endpoints_fold[of es "[]"] by (simp add: endpoints_def)

lemma add_edges_from_props:
  assumes "graph_ok g" "\<forall>e\<in>set es. fst e \<in> set (nodes g) \<and> snd e \<in> set (nodes g)"
  shows "graph_ok (add_edges_from g es) \<and> nodes (add_edges_from g es) = nodes g
     \<and> edge_rel (add_edges_from g es) = edge_rel g \<union> set es \<union> (set es)\<inverse>"
  using assms unfolding add_edges_from_def
proof (induction es arbitrary: g)
  case Nil
  then show ?case by simp
next
  case (Cons e es)
  obtain u v where e: "e = (u, v)" by (cases e)
  with Cons.prems have uv: "u \<in> set (nodes g)" "v \<in> set (nodes g)" by simp_all
  let ?g = "add_edge g u v"
  have ok: "graph_ok ?g" using Cons.prems(1) by (rule graph_ok_add_edge)
  have nd: "nodes ?g = nodes g" using uv by (rule nodes_add_edge_mem)
  have er: "edge_rel ?g = edge_rel g \<union> {(u, v), (v, u)}"
    using Cons.prems(1) by (rule edge_rel_add_edge)
  from Cons.IH[OF ok] Cons.prems(2) nd er show ?case
    unfolding e by auto
qed

lemma load_graph_props:
  assumes "lists_edges set_order lines"
  shows "graph_ok (load_graph set_order lines)"
    and "loop_free (load_graph set_order lines)"
    and "nodes (load_graph set_order lines) = sort (endpoints (set_order (read_edges lines)))"
    and "set (nodes (load_graph set_order lines)) =
           fst ` set (read_edges lines) \<union> snd ` set (read_edges lines)"
    and "edge_rel (load_graph set_order lines) =
           set (read_edges lines) \<union> (set (read_edges lines))\<inverse>"
proof -
  let ?es = "set_order (read_edges lines)"
  let ?ns = "sort (endpoints ?es)"
  let ?h = "add_nodes_from empty_graph ?ns"
  let ?g = "load_graph set_order lines"
  from assms have se: "set ?es = set (read_edges lines)" by (simp add: lists_edges_def)
  have g: "?g = add_edges_from ?h ?es" by (simp add: load_graph_def Let_def)
  have n0: "nodes ?h = ?ns"
    by (rule nodes_add_nodes_from_empty) (simp add: distinct_endpoints)
  have ok0: "graph_ok ?h" and e0: "edge_rel ?h = {}"
    using add_nodes_from_props[OF graph_ok_empty(1), of ?ns] graph_ok_empty(3) by auto
  have ep: "\<forall>e\<in>set ?es. fst e \<in> set (nodes ?h) \<and> snd e \<in> set (nodes ?h)"
    by (auto simp: n0 set_endpoints)
  note p = add_edges_from_props[OF ok0 ep, folded g]
  from p show "graph_ok ?g" by blast
  from p n0 show n: "nodes ?g = ?ns" by simp
  show "set (nodes ?g) = fst ` set (read_edges lines) \<union> snd ` set (read_edges lines)"
    by (simp add: n set_endpoints se)
  from p e0 show er: "edge_rel ?g = set (read_edges lines) \<union> (set (read_edges lines))\<inverse>"
    by (simp add: se)
  show "loop_free ?g"
    unfolding loop_free_edge_rel er irrefl_def using read_edges_ordered[of _ _ lines] by fastforce
qed

lemma load_graph_nodes:
  assumes "lists_edges set_order lines"
  shows "sorted (nodes (load_graph set_order lines))"
    and "distinct (nodes (load_graph set_order lines))"
    and "set (nodes (load_graph set_order lines)) =
     {w. \<exists>raw\<in>set lines. \<exists>u v. parse_line raw = Some (u, v) \<and> u \<noteq> v \<and> (w = u \<or> w = v)}"
proof -
  show "sorted (nodes (load_graph set_order lines))"
    by (simp add: load_graph_props(3)[OF assms])
  show "distinct (nodes (load_graph set_order lines))"
    by (simp add: load_graph_props(3)[OF assms] distinct_endpoints)
  show "set (nodes (load_graph set_order lines)) =
     {w. \<exists>raw\<in>set lines. \<exists>u v. parse_line raw = Some (u, v) \<and> u \<noteq> v \<and> (w = u \<or> w = v)}"
    (is "?L = ?R")
  proof (rule set_eqI, rule iffI)
    fix w assume "w \<in> ?L"
    then obtain s d where sd: "(s, d) \<in> set (read_edges lines)" "w = s \<or> w = d"
      unfolding load_graph_props(4)[OF assms] by force
    then obtain u v raw where
      r: "raw \<in> set lines" "parse_line raw = Some (u, v)" "u \<noteq> v" "s = min u v" "d = max u v"
      unfolding set_read_edges by blast
    from sd(2) r(4,5) have "w = u \<or> w = v" by (auto simp: min_def max_def split: if_splits)
    with r show "w \<in> ?R" by blast
  next
    fix w assume "w \<in> ?R"
    then obtain raw u v where
      r: "raw \<in> set lines" "parse_line raw = Some (u, v)" "u \<noteq> v" "w = u \<or> w = v" by blast
    then have "(min u v, max u v) \<in> set (read_edges lines)" unfolding set_read_edges by blast
    moreover from r(4) have "w = min u v \<or> w = max u v" by (auto simp: min_def max_def)
    ultimately show "w \<in> ?L"
      unfolding load_graph_props(4)[OF assms] by force
  qed
qed

lemma loadsnap_Inr_iff:
  "loadsnap set_order lines = Inr (g, A, D) \<longleftrightarrow>
     g = load_graph set_order lines \<and> nodes g \<noteq> [] \<and> A = adjacency_csc g
     \<and> D = diags (row_sums (adjacency_csc g))"
  by (auto simp: loadsnap_def Let_def adjacency_matrix_def)

lemma loadsnap_nonempty:
  "nodes (load_graph set_order lines) \<noteq> [] \<Longrightarrow>
   loadsnap set_order lines =
     Inr (load_graph set_order lines, adjacency_csc (load_graph set_order lines),
          diags (row_sums (adjacency_csc (load_graph set_order lines))))"
  by (simp add: loadsnap_Inr_iff)

lemma loadsnap_no_edges:
  assumes "lists_edges set_order lines"
  shows "loadsnap set_order lines = Inl (NetworkXError msg_no_nodes) \<longleftrightarrow> read_edges lines = []"
proof -
  have "nodes (load_graph set_order lines) = [] \<longleftrightarrow> read_edges lines = []"
    using load_graph_props(4)[OF assms] by (metis Un_empty image_is_empty set_empty)
  then show ?thesis by (auto simp: loadsnap_def Let_def adjacency_matrix_def)
qed

lemma lists_edges_id: "lists_edges (\<lambda>es. es) lines" "lists_edges rev lines"
  by (simp_all add: lists_edges_def)

subsection \<open>The example file, evaluated\<close>

lemmas parse_eval =
  read_edges_def load_line_def parse_line_def strip_def split_def is_space_def py_int_def
  unsigned_int_def is_digit_def digit_val_def py_set_add_def int_max_str_digits_def

lemma scenario_edges: "read_edges scenario_lines = [(0, 1), (0, 2), (1, 2), (2, 3)]"
  by (simp add: scenario_lines_def parse_eval)

lemma rejected_edges: "read_edges rejected_lines = []"
  by (simp add: rejected_lines_def parse_eval)

lemma loop_edges: "read_edges loop_lines = [(0, 1)]"
  by (simp add: loop_lines_def parse_eval)

lemma loop_parse: "parse_line ''0 1'' = Some (0, 1)" "parse_line ''3 3'' = Some (3, 3)"
  by (simp_all add: parse_eval)

lemma adj_add_nodes_from_empty: "adj (add_nodes_from empty_graph us) x = []"
proof -
  have "\<And>g. (\<forall>y. adj g y = []) \<Longrightarrow> adj (fold (\<lambda>u h. add_node h u) us g) x = []"
    by (induction us) (simp_all add: add_node_def)
  from this[of empty_graph] show ?thesis by (simp add: add_nodes_from_def empty_graph_def)
qed

lemma adj_add_edge_mem:
  assumes "u \<in> set (nodes g)" "v \<in> set (nodes g)" "u \<noteq> v"
  shows "adj (add_edge g u v) x =
     (if x = u then py_set_add (adj g u) v else if x = v then py_set_add (adj g v) u else adj g x)"
  using assms by (simp add: add_edge_def Let_def nodes_add_node_mem)

lemma scenario_nodes_any:
  assumes "lists_edges set_order scenario_lines"
  shows "nodes (load_graph set_order scenario_lines) = [0, 1, 2, 3]"
proof -
  have "set (nodes (load_graph set_order scenario_lines)) = set [0, 1, 2, 3::int]"
    by (simp add: load_graph_props(4)[OF assms] scenario_edges) auto
  with load_graph_nodes(1,2)[OF assms] show ?thesis
    by (intro sorted_distinct_set_unique) simp_all
qed

lemma scenario_adj_sets:
  assumes "lists_edges set_order scenario_lines"
  shows "set (adj (load_graph set_order scenario_lines) 0) = {1, 2}"
    and "set (adj (load_graph set_order scenario_lines) 1) = {0, 2}"
    and "set (adj (load_graph set_order scenario_lines) 2) = {0, 1, 3}"
    and "set (adj (load_graph set_order scenario_lines) 3) = {2}"
proof -
  have e: "edge_rel (load_graph set_order scenario_lines) =
      {(0, 1), (0, 2), (1, 2), (2, 3), (1, 0), (2, 0), (2, 1), (3, 2)}"
    by (simp add: load_graph_props(5)[OF assms] scenario_edges) auto
  have a: "\<And>u. set (adj (load_graph set_order scenario_lines) u)
      = {v. (u, v) \<in> edge_rel (load_graph set_order scenario_lines)}"
    by (simp add: edge_rel_def)
  show "set (adj (load_graph set_order scenario_lines) 0) = {1, 2}"
    and "set (adj (load_graph set_order scenario_lines) 1) = {0, 2}"
    and "set (adj (load_graph set_order scenario_lines) 2) = {0, 1, 3}"
    and "set (adj (load_graph set_order scenario_lines) 3) = {2}"
    unfolding a e by auto
qed

lemma scenario_adj_lists:
  "adj (load_graph (\<lambda>es. es) scenario_lines) 0 = [1, 2]"
  "adj (load_graph (\<lambda>es. es) scenario_lines) 1 = [0, 2]"
  "adj (load_graph (\<lambda>es. es) scenario_lines) 2 = [0, 1, 3]"
  "adj (load_graph (\<lambda>es. es) scenario_lines) 3 = [2]"
proof -
  have e: "endpoints [(0, 1), (0, 2), (1, 2), (2, 3)] = [0, 1, 2, 3::int]"
    by (simp add: endpoints_def py_set_add_def)
  have g: "load_graph (\<lambda>es. es) scenario_lines =
      add_edge (add_edge (add_edge (add_edge (add_nodes_from empty_graph [0, 1, 2, 3]) 0 1) 0 2) 1 2) 2 3"
    by (simp add: load_graph_def Let_def scenario_edges e add_edges_from_def)
  have n: "nodes (add_nodes_from empty_graph [0, 1, 2, 3::int]) = [0, 1, 2, 3]"
    by (rule nodes_add_nodes_from_empty) simp
  show "adj (load_graph (\<lambda>es. es) scenario_lines) 0 = [1, 2]"
    "adj (load_graph (\<lambda>es. es) scenario_lines) 1 = [0, 2]"
    "adj (load_graph (\<lambda>es. es) scenario_lines) 2 = [0, 1, 3]"
    "adj (load_graph (\<lambda>es. es) scenario_lines) 3 = [2]"
    unfolding g
    by (simp_all add: adj_add_edge_mem nodes_add_edge_mem n adj_add_nodes_from_empty py_set_add_def)
qed

lemma scenario_graph_edges:
  "edges (load_graph (\<lambda>es. es) scenario_lines) = [(0, 1), (0, 2), (1, 2), (2, 3)]"
  by (simp add: edges_def scenario_nodes_any lists_edges_id scenario_adj_lists)

lemma scenario_edge_set_any:
  assumes "lists_edges set_order scenario_lines"
  shows "set (edges (load_graph set_order scenario_lines)) = {(0, 1), (0, 2), (1, 2), (2, 3)}"
proof -
  let ?g = "load_graph set_order scenario_lines"
  have "set (edges ?g) =
      Pair 0 ` set (adj ?g 0) \<union> Pair 1 ` (set (adj ?g 1) - {0})
      \<union> Pair 2 ` (set (adj ?g 2) - {0, 1}) \<union> Pair 3 ` (set (adj ?g 3) - {0, 1, 2})"
    by (auto simp add: edges_def scenario_nodes_any[OF assms])
  then show ?thesis by (simp add: scenario_adj_sets[OF assms]) auto
qed

lemma upt4: "[0..<4] = [0, 1, 2, 3::nat]"
  by (simp add: upt_rec)

lemma scenario_columns:
  "map (\<lambda>j. map (\<lambda>i. (i, 1::real))
           (filter (\<lambda>i. [0, 1, 2, 3::int] ! j
                \<in> set (adj (load_graph (\<lambda>es. es) scenario_lines) ([0, 1, 2, 3] ! i)))
              [0, 1, 2, 3]))
     [0, 1, 2, 3]
   = [[(1, 1), (2, 1)], [(0, 1), (2, 1)], [(0, 1), (1, 1), (3, 1)], [(2, 1)]]"
  by (simp add: scenario_adj_lists)

lemma scenario_csc_id: "adjacency_csc (load_graph (\<lambda>es. es) scenario_lines) = sample_adj"
proof -
  have len: "length [0, 1, 2, 3::int] = 4" by simp
  have n: "nodes (load_graph (\<lambda>es. es) scenario_lines) = [0, 1, 2, 3]"
    by (simp add: scenario_nodes_any lists_edges_id)
  have "adjacency_csc (load_graph (\<lambda>es. es) scenario_lines) =
      csc_of_columns 4 [[(1, 1), (2, 1)], [(0, 1), (2, 1)], [(0, 1), (1, 1), (3, 1)], [(2, 1)]]"
    by (simp only: adjacency_csc_def Let_def n len upt4 scenario_columns)
  also have "\<dots> = sample_adj"
    by (simp add: csc_of_columns_def sample_adj_def)
  finally show ?thesis .
qed

lemma scenario_csc_any:
  assumes "lists_edges set_order scenario_lines"
  shows "adjacency_csc (load_graph set_order scenario_lines) = sample_adj"
proof -
  have "adjacency_csc (load_graph set_order scenario_lines)
      = adjacency_csc (load_graph (\<lambda>es. es) scenario_lines)"
  proof (rule adjacency_csc_cong)
    show "nodes (load_graph set_order scenario_lines) = nodes (load_graph (\<lambda>es. es) scenario_lines)"
      by (simp add: scenario_nodes_any assms lists_edges_id)
    fix u
    show "set (adj (load_graph set_order scenario_lines) u)
        = set (adj (load_graph (\<lambda>es. es) scenario_lines) u)"
      using load_graph_props(5)[OF assms] load_graph_props(5)[OF lists_edges_id(1), of scenario_lines]
      by (auto simp: edge_rel_def)
  qed
  then show ?thesis by (simp add: scenario_csc_id)
qed

lemma row_sums_sample: "row_sums sample_adj = [2, 2, 3, 1]"
  by (simp add: row_sums_def sample_adj_def upt_rec)

lemma nrows_diags: "nrows (diags d) = length d" "ncols (diags d) = length d"
  by (simp_all add: diags_def csc_of_columns_def)

lemma diagonal_diags: "diagonal (diags d) = d"
  unfolding diagonal_def nrows_diags by (rule nth_equalityI) (simp_all add: entry_diags)

lemma scenario_loadsnap_any:
  assumes "lists_edges set_order scenario_lines"
  shows "loadsnap set_order scenario_lines =
     Inr (load_graph set_order scenario_lines, sample_adj, diags [2, 2, 3, 1])"
  using scenario_nodes_any[OF assms]
  by (simp add: loadsnap_Inr_iff scenario_csc_any[OF assms] row_sums_sample)

lemma loadsnap_rejected:
  "loadsnap (\<lambda>es. es) rejected_lines = Inl (NetworkXError msg_no_nodes)"
  using loadsnap_no_edges[OF lists_edges_id(1), of rejected_lines] rejected_edges by simp

lemma py_int_digit_limit:
  "int_max_str_digits < length (filter is_digit s) \<Longrightarrow> py_int s = None"
  by (simp add: py_int_def)

subsection \<open>Row sums and degrees\<close>

lemma sum_filter_concat:
  "sum_list (map snd (filter P (concat cols))) =
     sum_list (map (\<lambda>c. sum_list (map snd (filter P c))) cols)"
  by (induction cols) simp_all

lemma sum_indicator_upt:
  "sum_list (map (\<lambda>j. if Q j then 1 else 0) [0..<n]) = real (card {j. j < n \<and> Q j})"
proof (induction n)
  case 0
  then show ?case by simp
next
  case (Suc n)
  have split: "{j. j < Suc n \<and> Q j} = {j. j < n \<and> Q j} \<union> (if Q n then {n} else {})"
    by (auto simp: less_Suc_eq)
  have "card {j. j < Suc n \<and> Q j} = card {j. j < n \<and> Q j} + (if Q n then 1 else 0)"
    unfolding split by (simp add: card_insert_if)
  with Suc show ?case by simp
qed

lemma row_sums_adjacency_csc:
  assumes "i < length (nodes g)"
  shows "row_sums (adjacency_csc g) ! i =
     real (card {j. j < length (nodes g) \<and> nodes g ! j \<in> set (adj g (nodes g ! i))})"
proof -
  let ?n = "length (nodes g)"
  let ?cols = "map (\<lambda>j. map (\<lambda>k. (k, 1::real))
      (filter (\<lambda>k. nodes g ! j \<in> set (adj g (nodes g ! k))) [0..<?n])) [0..<?n]"
  have a: "adjacency_csc g = csc_of_columns ?n ?cols"
    by (simp add: adjacency_csc_def Let_def)
  have z: "zip (indices (csc_of_columns ?n ?cols)) (data (csc_of_columns ?n ?cols)) = concat ?cols"
    by (simp add: csc_of_columns_def zip_map_fst_snd)
  have "row_sums (adjacency_csc g) ! i =
      sum_list (map snd (filter (\<lambda>e. fst e = i) (concat ?cols)))"
    using assms unfolding a row_sums_def z by (simp add: csc_of_columns_def)
  also have "\<dots> = sum_list (map (\<lambda>j. if nodes g ! j \<in> set (adj g (nodes g ! i)) then 1 else 0) [0..<?n])"
    unfolding sum_filter_concat using assms
    by (simp add: comp_def entry_indicator_column)
  also have "\<dots> = real (card {j. j < ?n \<and> nodes g ! j \<in> set (adj g (nodes g ! i))})"
    by (rule sum_indicator_upt)
  finally show ?thesis .
qed

lemma length_row_sums: "length (row_sums m) = nrows m"
  by (simp add: row_sums_def)

lemma degree_count:
  assumes "graph_ok g" "i < length (nodes g)"
  shows "card {j. j < length (nodes g) \<and> nodes g ! j \<in> set (adj g (nodes g ! i))}
     = card {v. (nodes g ! i, v) \<in> edge_rel g}"
proof -
  let ?J = "{j. j < length (nodes g) \<and> nodes g ! j \<in> set (adj g (nodes g ! i))}"
  from assms(1) have d: "distinct (nodes g)" by (simp add: graph_ok_def)
  have inj: "inj_on (\<lambda>j. nodes g ! j) ?J"
    using d by (auto simp: inj_on_def nth_eq_iff_index_eq)
  have "(\<lambda>j. nodes g ! j) ` ?J = {v. (nodes g ! i, v) \<in> edge_rel g}"
  proof (rule set_eqI, rule iffI)
    fix v assume "v \<in> (\<lambda>j. nodes g ! j) ` ?J"
    then show "v \<in> {v. (nodes g ! i, v) \<in> edge_rel g}" by (auto simp: edge_rel_def)
  next
    fix v assume "v \<in> {v. (nodes g ! i, v) \<in> edge_rel g}"
    then have v: "v \<in> set (adj g (nodes g ! i))" by (simp add: edge_rel_def)
    with assms(1) have "v \<in> set (nodes g)" by (auto simp: graph_ok_def)
    then obtain j where "j < length (nodes g)" "nodes g ! j = v" by (auto simp: in_set_conv_nth)
    with v show "v \<in> (\<lambda>j. nodes g ! j) ` ?J" by auto
  qed
  with card_image[OF inj] show ?thesis by simp
qed

lemma degree_matrix_entry:
  assumes "graph_ok g" "i < length (nodes g)"
  shows "entry (diags (row_sums (adjacency_csc g))) i i
     = real (card {v. (nodes g ! i, v) \<in> edge_rel g})"
  using assms
  by (simp add: entry_diags length_row_sums shape_adjacency_csc row_sums_adjacency_csc
      degree_count)

lemma create_connected_graph_eq:
  assumes "connected_graph n p r = Some (Inr (g, r', k))" "nodes g \<noteq> []"
  shows "create_connected_graph n p r =
     Some (Inr ((adjacency_csc g, diags (row_sums (adjacency_csc g))), r'))"
  using assms by (simp add: create_connected_graph_def adjacency_matrix_nonempty Let_def)

lemma create_connected_graph_result:
  assumes "create_connected_graph n p r = Some (Inr ((A, D), r'))"
  shows "\<exists>g. graph_ok g \<and> loop_free g \<and> nodes g = [0..n - 1] \<and> A = adjacency_csc g
     \<and> D = diags (row_sums (adjacency_csc g))"
proof (cases "1 \<le> n \<and> 0 \<le> p \<and> p \<le> 1")
  case True
  with connected_graph_ok[of n p r] obtain g r'' k where
    g: "connected_graph n p r = Some (Inr (g, r'', k))" "graph_ok g" "loop_free g"
       "nodes g = [0..n - 1]" by blast
  from g(4) True have "nodes g \<noteq> []" by (simp add: upto.simps)
  from create_connected_graph_eq[OF g(1) this] assms
  have "A = adjacency_csc g" "D = diags (row_sums (adjacency_csc g))" by simp_all
  with g show ?thesis by blast
next
  case False
  then have "\<exists>e. create_connected_graph n p r = Some (Inl e)"
    by (auto simp: create_connected_graph_def connected_graph_def)
  with assms show ?thesis by simp
qed

lemma sorted_distinct_nth_less_iff:
  assumes "sorted xs" "distinct xs" "i < length xs" "j < length xs"
  shows "i < j \<longleftrightarrow> xs ! i < xs ! j"
proof
  assume "i < j"
  with assms show "xs ! i < xs ! j"
    by (metis strict_sorted_iff sorted_wrt_iff_nth_less)
next
  assume l: "xs ! i < xs ! j"
  show "i < j"
  proof (rule ccontr)
    assume "\<not> i < j"
    then have "j \<le> i" by simp
    with assms(1,3) have "xs ! j \<le> xs ! i" by (simp add: sorted_nth_mono)
    with l show False by simp
  qed
qed

subsection \<open>Probability zero and draws other than \<open>0.0\<close>\<close>

lemma sample_pair_zero:
  assumes "edge_rel (fst s) = {}" "\<forall>d\<in>sset (snd s). d mod 2 ^ 53 \<noteq> 0"
  shows "edge_rel (fst (sample_pair 0 i j s)) = {}
     \<and> (\<forall>d\<in>sset (snd (sample_pair 0 i j s)). d mod 2 ^ 53 \<noteq> 0)"
proof -
  obtain g r where s: "s = (g, r)" by (cases s)
  from assms(2) s have "shd r mod 2 ^ 53 \<noteq> 0" by (simp add: shd_sset)
  then have "\<not> real (shd r mod 2 ^ 53) / 2 ^ 53 \<le> 0" by (simp add: divide_le_0_iff)
  then have "sample_pair 0 i j s = (g, stl r)"
    by (simp add: s sample_pair_def random_random_def)
  with assms s show ?thesis by (auto dest: stl_sset)
qed

lemma sample_row_zero:
  assumes "edge_rel (fst s) = {}" "\<forall>d\<in>sset (snd s). d mod 2 ^ 53 \<noteq> 0"
  shows "edge_rel (fst (fold (\<lambda>j. sample_pair 0 i j) js s)) = {}
     \<and> (\<forall>d\<in>sset (snd (fold (\<lambda>j. sample_pair 0 i j) js s)). d mod 2 ^ 53 \<noteq> 0)"
  using assms
proof (induction js arbitrary: s)
  case Nil
  then show ?case by simp
next
  case (Cons j js)
  from sample_pair_zero[OF Cons.prems, of i j] Cons.IH[of "sample_pair 0 i j s"]
  show ?case by simp
qed

lemma sample_rows_zero:
  assumes "edge_rel (fst s) = {}" "\<forall>d\<in>sset (snd s). d mod 2 ^ 53 \<noteq> 0"
  shows "edge_rel (fst (fold (\<lambda>i. fold (\<lambda>j. sample_pair 0 i j) (js i)) is s)) = {}"
  using assms
proof (induction "is" arbitrary: s)
  case Nil
  then show ?case by simp
next
  case (Cons i "is")
  from sample_row_zero[OF Cons.prems, of i "js i"]
    Cons.IH[of "fold (\<lambda>j. sample_pair 0 i j) (js i) s"]
  show ?case by simp
qed

lemma components_no_edges:
  assumes "graph_ok g" "edge_rel g = {}"
  shows "connected_components g = map (\<lambda>u. [u]) (nodes g)"
proof -
  from assms have "set (edge_pairs g) = {}" by (simp add: set_edge_pairs_ok)
  then have "edge_pairs g = []" by simp
  then show ?thesis by (simp add: connected_components_def)
qed

lemma zero_probability_nonzero_draws:
  assumes "1 \<le> n" "\<forall>d\<in>sset r. d mod 2 ^ 53 \<noteq> 0"
  shows "edge_rel (fst (sample_edges n 0 r)) = {}"
    and "\<exists>g r'. connected_graph n 0 r = Some (Inr (g, r', nat n - 1))"
proof -
  let ?g0 = "add_nodes_from empty_graph [0..n - 1]"
  have "edge_rel ?g0 = {}"
    using add_nodes_from_props[OF graph_ok_empty(1), of "[0..n - 1]"] graph_ok_empty(3) by simp
  with sample_rows_zero[of "(?g0, r)" "\<lambda>i. [i + 1..n - 1]" "[0..n - 1]"] assms(2)
  show e: "edge_rel (fst (sample_edges n 0 r)) = {}"
    by (simp add: sample_edges_def)
  note inv = sample_edges_inv[of n 0 r]
  from inv e have "connected_components (fst (sample_edges n 0 r)) = map (\<lambda>u. [u]) [0..n - 1]"
    by (simp add: components_no_edges)
  then have len: "length (connected_components (fst (sample_edges n 0 r))) = nat n"
    using assms(1) by simp
  from inv assms(1) have ne: "nodes (fst (sample_edges n 0 r)) \<noteq> []" by (simp add: upto.simps)
  from repair_terminates[of "fst (sample_edges n 0 r)" "snd (sample_edges n 0 r)" 0] inv ne
  obtain g r' where
    r: "repair (fst (sample_edges n 0 r)) (snd (sample_edges n 0 r)) 0 = Some (Inr (g, r', nat n - 1))"
       "nodes g = nodes (fst (sample_edges n 0 r))" "length (connected_components g) = 1"
    unfolding len by auto
  have args: "(0::real) \<le> 0" "(0::real) \<le> 1" by simp_all
  from connected_graph_ok[OF assms(1) args, of r] obtain g2 r2 k where
    c: "connected_graph n 0 r = Some (Inr (g2, r2, k))"
       "repair (fst (sample_edges n 0 r)) (snd (sample_edges n 0 r)) 0 = Some (Inr (g2, r2, k))"
    by blast
  from c(2) r(1) have "k = nat n - 1" by simp
  with c(1) show "\<exists>g r'. connected_graph n 0 r = Some (Inr (g, r', nat n - 1))" by blast
qed

section \<open>The neighbourhood query: results\<close>

text \<open>
  C4, as stated: for the empty seed list the function returns the empty sequence without
  reading the matrix. It does read it: the first statement takes \<open>adj_mat.shape[0]\<close>,
  before the test for the empty list.
\<close>

theorem neighborhood_empty_seed_reads_shape_counterexample:
  "get_neighborhood_indices [] zero3 = (Inr [], [Shape])
   \<and> snd (get_neighborhood_indices [] zero3) \<noteq> []"
  by (simp add: get_neighborhood_indices_def)

text \<open>
  C4, amended. For a square CSC matrix and seeds that all lie in \<open>[0, matrixSize)\<close>,
  \<open>get_neighborhood_indices\<close> returns a result, and the result is sorted, free of
  duplicates, contains every seed, and contains no index outside \<open>[0, matrixSize)\<close>.
  For the empty seed list the result is the empty list, whatever the matrix holds, and
  the shape is all that is read of the matrix.
\<close>

theorem neighborhood_sorted_superset_in_range:
  assumes "csc_square m" and "\<forall>i\<in>set idxs. 0 \<le> i \<and> i < int (nrows m)"
  shows "(\<exists>res reads. get_neighborhood_indices idxs m = (Inr res, reads) \<and> sorted res
            \<and> distinct res \<and> set idxs \<subseteq> set res
            \<and> (\<forall>x\<in>set res. 0 \<le> x \<and> x < int (nrows m)))
         \<and> get_neighborhood_indices [] m' = (Inr [], [Shape])"
  using gni_ok[OF assms] gni_empty[of m'] by simp

theorem neighborhood_sorted_superset_in_range_witness:
  "csc_square sample_adj \<and> (0::int) \<le> 0 \<and> 0 < int (nrows sample_adj)
   \<and> fst (get_neighborhood_indices [0] sample_adj) = Inr [0, 1, 2]
   \<and> (\<exists>res reads. get_neighborhood_indices [0] sample_adj = (Inr res, reads) \<and> sorted res
         \<and> distinct res \<and> set [0] \<subseteq> set res
         \<and> (\<forall>x\<in>set res. 0 \<le> x \<and> x < int (nrows sample_adj)))
   \<and> get_neighborhood_indices [] zero3 = (Inr [], [Shape])"
proof -
  have h1: "csc_square sample_adj"
    by (simp add: csc_square_def sample_adj_def)
  have h2: "\<forall>i\<in>set [0::int]. 0 \<le> i \<and> i < int (nrows sample_adj)"
    by (simp add: sample_adj_def)
  have v: "fst (get_neighborhood_indices [0] sample_adj) = Inr [0, 1, 2]"
    by (simp add: get_neighborhood_indices_def sample_adj_def np_get_def np_slice_def)
  have h3: "(0::int) \<le> 0 \<and> 0 < int (nrows sample_adj)"
    by (simp add: sample_adj_def)
  from neighborhood_sorted_superset_in_range[OF h1 h2, of zero3] h1 h3 v show ?thesis
    by blast
qed

text \<open>
  C5, as stated: the two failures are two distinct error kinds. They are one: a seed
  that is too large and a negative seed both raise \<open>ValueError\<close>, and only the message
  tells them apart.
\<close>

theorem neighborhood_errors_same_kind_counterexample:
  "get_neighborhood_indices [5] zero3 = (Inl (ValueError msg_out_of_bounds), [Shape])
   \<and> get_neighborhood_indices [-1] zero3 = (Inl (ValueError msg_negative), [Shape])
   \<and> exception_class (ValueError msg_out_of_bounds) = exception_class (ValueError msg_negative)"
  by (simp add: get_neighborhood_indices_def zero3_def)

text \<open>
  C5, amended. The two checks come before any other step: a seed that is at least the
  matrix size fails with the \<open>ValueError\<close> for an index out of bounds, a negative seed
  (none being too large) with the \<open>ValueError\<close> for negative indices, and every seed list
  with a seed outside \<open>[0, matrixSize)\<close> fails with a \<open>ValueError\<close>. The two failures
  are of one class and differ in their message. A failure carries no result, and the
  shape is all that has been read of the matrix.
\<close>

theorem neighborhood_precondition_errors:
  "((\<exists>i\<in>set idxs. int (nrows m) \<le> i) \<longrightarrow>
      get_neighborhood_indices idxs m = (Inl (ValueError msg_out_of_bounds), [Shape]))
   \<and> ((\<forall>i\<in>set idxs. i < int (nrows m)) \<and> (\<exists>i\<in>set idxs. i < 0) \<longrightarrow>
      get_neighborhood_indices idxs m = (Inl (ValueError msg_negative), [Shape]))
   \<and> ((\<exists>i\<in>set idxs. int (nrows m) \<le> i \<or> i < 0) \<longrightarrow>
      (\<exists>msg. get_neighborhood_indices idxs m = (Inl (ValueError msg), [Shape])))
   \<and> exception_class (ValueError msg_out_of_bounds) = exception_class (ValueError msg_negative)
   \<and> msg_out_of_bounds \<noteq> msg_negative"
proof -
  have "\<exists>msg. get_neighborhood_indices idxs m = (Inl (ValueError msg), [Shape])"
    if v: "\<exists>i\<in>set idxs. int (nrows m) \<le> i \<or> i < 0"
  proof (cases "\<exists>i\<in>set idxs. int (nrows m) \<le> i")
    case True
    from gni_oob[OF this] show ?thesis by blast
  next
    case False
    with v have "\<forall>i\<in>set idxs. i < int (nrows m)" "\<exists>i\<in>set idxs. i < 0" by auto
    from gni_neg[OF this] show ?thesis by blast
  qed
  then show ?thesis
    using gni_oob[of idxs m] gni_neg[of idxs m]
    by (simp add: msg_out_of_bounds_def msg_negative_def)
qed

theorem neighborhood_precondition_errors_witness:
  "(\<exists>i\<in>set [0, 3::int]. int (nrows zero3) \<le> i)
   \<and> get_neighborhood_indices [0, 3] zero3 = (Inl (ValueError msg_out_of_bounds), [Shape])
   \<and> (2::int) < int (nrows zero3) \<and> (-1::int) < int (nrows zero3) \<and> (-1::int) < 0
   \<and> get_neighborhood_indices [2, -1] zero3 = (Inl (ValueError msg_negative), [Shape])"
proof -
  have h1: "\<exists>i\<in>set [0, 3::int]. int (nrows zero3) \<le> i" by (simp add: zero3_def)
  have h2: "(\<forall>i\<in>set [2, -1::int]. i < int (nrows zero3)) \<and> (\<exists>i\<in>set [2, -1::int]. i < 0)"
    by (simp add: zero3_def)
  have h3: "(2::int) < int (nrows zero3) \<and> (-1::int) < int (nrows zero3) \<and> (-1::int) < 0"
    by (simp add: zero3_def)
  from neighborhood_precondition_errors[of "[0, 3]" zero3]
       neighborhood_precondition_errors[of "[2, -1]" zero3] h1 h2 h3
  show ?thesis by blast
qed

section \<open>The generator: results\<close>

text \<open>
  C1. For every \<open>n \<ge> 1\<close>, every \<open>p\<close> in \<open>[0, 1]\<close> and every stream of random draws,
  \<open>create_connected_graph\<close> returns; the graph it has built has exactly the \<open>n\<close> nodes
  \<open>0, \<dots>, n - 1\<close>, any two of them are joined by a path, and it is one connected
  component.
\<close>

theorem generated_graph_is_connected:
  assumes "1 \<le> n" and "0 \<le> p" and "p \<le> 1"
  shows "\<exists>g r' k. connected_graph n p r = Some (Inr (g, r', k))
     \<and> create_connected_graph n p r =
          Some (Inr ((adjacency_csc g, diags (row_sums (adjacency_csc g))), r'))
     \<and> nodes g = [0..n - 1] \<and> length (nodes g) = nat n
     \<and> path_connected g \<and> length (connected_components g) = 1"
proof -
  from connected_graph_ok[OF assms, of r] obtain g r' k where
    g: "connected_graph n p r = Some (Inr (g, r', k))" "graph_ok g" "nodes g = [0..n - 1]"
       "length (connected_components g) = 1" by blast
  from g(3) assms(1) have ne: "nodes g \<noteq> []" by (simp add: upto.simps)
  have "path_connected g" using single_component_iff[OF g(2) ne] g(4) by simp
  moreover have "create_connected_graph n p r =
      Some (Inr ((adjacency_csc g, diags (row_sums (adjacency_csc g))), r'))"
    using g(1) ne by (rule create_connected_graph_eq)
  moreover have "length (nodes g) = nat n" using assms(1) by (simp add: g(3))
  ultimately show ?thesis using g by blast
qed

theorem generated_graph_is_connected_witness:
  "(1::int) \<le> 3 \<and> (0::real) \<le> 1 / 2 \<and> (1 / 2::real) \<le> 1
   \<and> (\<exists>g r' k. connected_graph 3 (1 / 2) (sconst 1) = Some (Inr (g, r', k))
          \<and> nodes g = [0, 1, 2] \<and> length (nodes g) = 3
          \<and> path_connected g \<and> length (connected_components g) = 1)"
proof -
  have h1: "(1::int) \<le> 3" and h2: "(0::real) \<le> 1 / 2" and h3: "(1 / 2::real) \<le> 1" by simp_all
  have u: "[0..(3::int) - 1] = [0, 1, 2]" by (simp add: upto.simps)
  from generated_graph_is_connected[OF h1 h2 h3, of "sconst 1"] show ?thesis
    unfolding u by auto
qed

text \<open>
  C3, at the draw \<open>0.0\<close>. With \<open>p = 0\<close> the trial \<open>random.random() <= p\<close> succeeds
  when the draw is \<open>0.0\<close>: for \<open>n = 2\<close> the sampling loop then adds the edge between
  0 and 1, and the repair loop runs zero times, not \<open>n - 1 = 1\<close> times. (When no draw
  is \<open>0.0\<close>, no pair is included and the loop runs \<open>n - 1\<close> times:
  \<open>zero_probability_nonzero_draws\<close>.)
\<close>

theorem zero_probability_zero_draw_adds_edge:
  "fst (random_random (sconst 0)) = 0
   \<and> edges (fst (sample_edges 2 0 (sconst 0))) = [(0, 1)]
   \<and> (\<exists>g. connected_graph 2 0 (sconst 0) = Some (Inr (g, sconst 0, 0)))"
  by (simp add: connected_graph_def repair.simps graph_eval comp_eval edges_def)

text \<open>
  C6. In a graph that is not yet connected, one iteration of the repair loop picks two
  nodes that no path joins, adds the edge between them and goes on with one iteration
  more on its count; the graph with that edge has exactly one component fewer. The loop
  returns after exactly (number of components - 1) iterations, with a graph of one
  component.
\<close>

theorem repair_iteration_merges_two_components:
  assumes "graph_ok g" and "nodes g \<noteq> []"
  shows "(length (connected_components g) \<noteq> 1 \<longrightarrow>
            (\<exists>node1 node2 r'.
               pick_nodes (connected_components g) r = Inr (node1, node2, r')
               \<and> \<not> same_class (connected_components g) node1 node2
               \<and> (node1, node2) \<notin> (edge_rel g)\<^sup>*
               \<and> repair g r k = repair (add_edge g node1 node2) r' (Suc k)
               \<and> length (connected_components (add_edge g node1 node2)) + 1
                    = length (connected_components g)))
     \<and> (\<exists>g' r'. repair g r k =
            Some (Inr (g', r', k + (length (connected_components g) - 1)))
          \<and> length (connected_components g') = 1)"
proof (intro conjI impI)
  assume ne: "length (connected_components g) \<noteq> 1"
  from repair_step[OF assms ne, of r k] obtain node1 node2 r' where
    s: "pick_nodes (connected_components g) r = Inr (node1, node2, r')"
       "node1 \<in> set (nodes g)" "node2 \<in> set (nodes g)"
       "\<not> same_class (connected_components g) node1 node2"
       "repair g r k = repair (add_edge g node1 node2) r' (Suc k)" by blast
  from s(2,3,4) have "(node1, node2) \<notin> (edge_rel g)\<^sup>*"
    by (simp add: components_spec(3)[OF assms(1)])
  moreover note components_add_edge[OF assms(1) s(2,3,4)]
  ultimately show "\<exists>node1 node2 r'.
       pick_nodes (connected_components g) r = Inr (node1, node2, r')
       \<and> \<not> same_class (connected_components g) node1 node2
       \<and> (node1, node2) \<notin> (edge_rel g)\<^sup>*
       \<and> repair g r k = repair (add_edge g node1 node2) r' (Suc k)
       \<and> length (connected_components (add_edge g node1 node2)) + 1
            = length (connected_components g)"
    using s by blast
next
  from repair_terminates[OF assms, of r k]
  show "\<exists>g' r'. repair g r k = Some (Inr (g', r', k + (length (connected_components g) - 1)))
          \<and> length (connected_components g') = 1"
    by blast
qed

theorem repair_iteration_merges_two_components_witness:
  "nodes (fst (sample_edges 3 0 (sconst 1))) = [0, 1, 2]
   \<and> connected_components (fst (sample_edges 3 0 (sconst 1))) = [[0], [1], [2]]
   \<and> pick_nodes (connected_components (fst (sample_edges 3 0 (sconst 1)))) (sconst 1)
       = Inr (1, 2, sconst 1)
   \<and> length (connected_components (add_edge (fst (sample_edges 3 0 (sconst 1))) 1 2)) + 1 = 3
   \<and> (\<exists>g' r'. repair (fst (sample_edges 3 0 (sconst 1))) (sconst 1) 0 = Some (Inr (g', r', 2))
         \<and> length (connected_components g') = 1)"
proof -
  let ?g = "fst (sample_edges 3 0 (sconst 1))"
  have h1: "graph_ok ?g" using sample_edges_inv[of 3 0 "sconst 1"] by blast
  have n: "nodes ?g = [0, 1, 2]" by (simp add: graph_eval)
  then have h2: "nodes ?g \<noteq> []" by simp
  have c: "connected_components ?g = [[0], [1], [2]]" by (simp add: graph_eval comp_eval)
  then have h3: "length (connected_components ?g) \<noteq> 1" by simp
  have p: "pick_nodes (connected_components ?g) (sconst 1) = Inr (1, 2, sconst 1)"
    unfolding c by (simp add: pick_eval)
  note t = repair_iteration_merges_two_components[OF h1 h2, of "sconst 1" 0]
  from t h3 p have "length (connected_components (add_edge ?g 1 2)) + 1
      = length (connected_components ?g)" by auto
  moreover have len: "length (connected_components ?g) = 3"
    using arg_cong[OF c, of length] by simp
  ultimately have m: "length (connected_components (add_edge ?g 1 2)) + 1 = 3" by (simp only:)
  have k: "0 + (length (connected_components ?g) - 1) = 2" using len by simp
  from t obtain g' r' where
    "repair ?g (sconst 1) 0 = Some (Inr (g', r', 0 + (length (connected_components ?g) - 1)))"
    "length (connected_components g') = 1" by blast
  then have "\<exists>g' r'. repair ?g (sconst 1) 0 = Some (Inr (g', r', 2))
      \<and> length (connected_components g') = 1" by (simp only: k) blast
  with n c p m show ?thesis by (simp only: simp_thms)
qed

text \<open>
  C9. When \<open>n < 1\<close> or \<open>p\<close> is outside \<open>[0, 1]\<close>, \<open>create_connected_graph\<close> raises
  \<open>ValueError\<close>, the probability being checked first; it does so before the graph is
  started, so that there is no graph, no matrix and no draw from the random source.
\<close>

theorem generator_rejects_bad_arguments:
  assumes "n < 1 \<or> \<not> (0 \<le> p \<and> p \<le> 1)"
  shows "create_connected_graph n p r =
           Some (Inl (ValueError (if 0 \<le> p \<and> p \<le> 1 then msg_n else msg_probability)))
     \<and> connected_graph n p r =
           Some (Inl (ValueError (if 0 \<le> p \<and> p \<le> 1 then msg_n else msg_probability)))"
  using assms by (auto simp: create_connected_graph_def connected_graph_def)

theorem generator_rejects_bad_arguments_witness:
  "(0::int) < 1 \<and> create_connected_graph 0 (1 / 2) (sconst 0) = Some (Inl (ValueError msg_n))
   \<and> \<not> (3 / 2::real) \<le> 1
   \<and> create_connected_graph 5 (3 / 2) (sconst 0) = Some (Inl (ValueError msg_probability))"
proof -
  have h1: "(0::int) < 1 \<or> \<not> (0 \<le> (1 / 2::real) \<and> (1 / 2::real) \<le> 1)" by simp
  have h2: "(5::int) < 1 \<or> \<not> (0 \<le> (3 / 2::real) \<and> (3 / 2::real) \<le> 1)" by simp
  from generator_rejects_bad_arguments[OF h1, of "sconst 0"]
       generator_rejects_bad_arguments[OF h2, of "sconst 0"]
  show ?thesis by simp
qed

section \<open>The loader and the matrices: results\<close>

text \<open>
  C2. The six lines \<open>0 1\<close>, \<open>0 2\<close>, \<open>1 2\<close>, \<open>2 3\<close>, \<open>3 3\<close>, \<open>0 1\<close> load
  as the nodes 0, 1, 2, 3 and the edges (0,1), (0,2), (1,2), (2,3): the self-loop is
  dropped and the repeated line adds nothing. The adjacency matrix is the one of the
  example, and the diagonal of the degree matrix is 2, 2, 3, 1. This holds in whatever
  order Python lists the set of edges; listed in the order of insertion, the edges also
  come out of \<open>G.edges()\<close> in the order of the file.
\<close>

theorem loadsnap_scenario:
  "read_edges scenario_lines = [(0, 1), (0, 2), (1, 2), (2, 3)]
   \<and> (\<exists>g D. loadsnap (\<lambda>es. es) scenario_lines = Inr (g, sample_adj, D)
         \<and> nodes g = [0, 1, 2, 3] \<and> set (nodes g) = {0, 1, 2, 3}
         \<and> edges g = [(0, 1), (0, 2), (1, 2), (2, 3)]
         \<and> set (edges g) = {(0, 1), (0, 2), (1, 2), (2, 3)}
         \<and> diagonal D = [2, 2, 3, 1])
   \<and> (lists_edges set_order scenario_lines \<longrightarrow>
        (\<exists>g D. loadsnap set_order scenario_lines = Inr (g, sample_adj, D)
           \<and> nodes g = [0, 1, 2, 3] \<and> set (nodes g) = {0, 1, 2, 3}
           \<and> set (edges g) = {(0, 1), (0, 2), (1, 2), (2, 3)}
           \<and> diagonal D = [2, 2, 3, 1]))"
proof (intro conjI impI)
  show "read_edges scenario_lines = [(0, 1), (0, 2), (1, 2), (2, 3)]" by (rule scenario_edges)
next
  let ?g = "load_graph (\<lambda>es. es) scenario_lines"
  note i = lists_edges_id(1)[of scenario_lines]
  have "loadsnap (\<lambda>es. es) scenario_lines = Inr (?g, sample_adj, diags [2, 2, 3, 1])"
    using i by (rule scenario_loadsnap_any)
  moreover have "nodes ?g = [0, 1, 2, 3]" using i by (rule scenario_nodes_any)
  moreover from this have "set (nodes ?g) = {0, 1, 2, 3}" by auto
  moreover have "edges ?g = [(0, 1), (0, 2), (1, 2), (2, 3)]" by (rule scenario_graph_edges)
  moreover have "set (edges ?g) = {(0, 1), (0, 2), (1, 2), (2, 3)}"
    using i by (rule scenario_edge_set_any)
  moreover have "diagonal (diags [2, 2, 3, 1]) = [2, 2, 3, 1]" by (rule diagonal_diags)
  ultimately show "\<exists>g D. loadsnap (\<lambda>es. es) scenario_lines = Inr (g, sample_adj, D)
         \<and> nodes g = [0, 1, 2, 3] \<and> set (nodes g) = {0, 1, 2, 3}
         \<and> edges g = [(0, 1), (0, 2), (1, 2), (2, 3)]
         \<and> set (edges g) = {(0, 1), (0, 2), (1, 2), (2, 3)}
         \<and> diagonal D = [2, 2, 3, 1]" by blast
next
  assume i: "lists_edges set_order scenario_lines"
  let ?g = "load_graph set_order scenario_lines"
  have "loadsnap set_order scenario_lines = Inr (?g, sample_adj, diags [2, 2, 3, 1])"
    using i by (rule scenario_loadsnap_any)
  moreover have "nodes ?g = [0, 1, 2, 3]" using i by (rule scenario_nodes_any)
  moreover from this have "set (nodes ?g) = {0, 1, 2, 3}" by auto
  moreover have "set (edges ?g) = {(0, 1), (0, 2), (1, 2), (2, 3)}"
    using i by (rule scenario_edge_set_any)
  moreover have "diagonal (diags [2, 2, 3, 1]) = [2, 2, 3, 1]" by (rule diagonal_diags)
  ultimately show "\<exists>g D. loadsnap set_order scenario_lines = Inr (g, sample_adj, D)
           \<and> nodes g = [0, 1, 2, 3] \<and> set (nodes g) = {0, 1, 2, 3}
           \<and> set (edges g) = {(0, 1), (0, 2), (1, 2), (2, 3)}
           \<and> diagonal D = [2, 2, 3, 1]" by blast
qed

theorem loadsnap_scenario_witness:
  "lists_edges rev scenario_lines
   \<and> rev (read_edges scenario_lines) = [(2, 3), (1, 2), (0, 2), (0, 1)]
   \<and> (\<exists>g D. loadsnap rev scenario_lines = Inr (g, sample_adj, D)
         \<and> nodes g = [0, 1, 2, 3] \<and> set (nodes g) = {0, 1, 2, 3}
         \<and> set (edges g) = {(0, 1), (0, 2), (1, 2), (2, 3)}
         \<and> diagonal D = [2, 2, 3, 1])"
proof -
  have h: "lists_edges rev scenario_lines" by (rule lists_edges_id(2))
  have r: "rev (read_edges scenario_lines) = [(2, 3), (1, 2), (0, 2), (0, 1)]"
    by (simp add: scenario_edges)
  from loadsnap_scenario[of rev] h r show ?thesis by blast
qed

text \<open>
  C7. The adjacency matrix returned by \<open>loadsnap\<close>, and the one returned by
  \<open>create_connected_graph\<close>, is square, and at all positions inside it the entries
  at \<open>(i, j)\<close> and \<open>(j, i)\<close> are equal, every entry is 0 or 1, and the entries on the
  diagonal are 0.
\<close>

theorem adjacency_matrix_symmetric_binary_zero_diagonal:
  assumes "(lists_edges set_order lines \<and> (\<exists>g D. loadsnap set_order lines = Inr (g, A, D)))
           \<or> create_connected_graph n p r = Some (Inr ((A, D'), r'))"
    and "i < nrows A" and "j < nrows A"
  shows "ncols A = nrows A \<and> entry A i j = entry A j i
     \<and> (entry A i j = 0 \<or> entry A i j = 1) \<and> entry A i i = 0"
proof -
  have "\<exists>g::int graph. graph_ok g \<and> loop_free g \<and> A = adjacency_csc g"
    using assms(1)
  proof
    assume a: "lists_edges set_order lines \<and> (\<exists>g D. loadsnap set_order lines = Inr (g, A, D))"
    then have "A = adjacency_csc (load_graph set_order lines)"
      by (auto simp: loadsnap_Inr_iff)
    with a load_graph_props(1,2)[of set_order lines] show ?thesis by blast
  next
    assume "create_connected_graph n p r = Some (Inr ((A, D'), r'))"
    from create_connected_graph_result[OF this] show ?thesis by blast
  qed
  then obtain g :: "int graph" where g: "graph_ok g" "loop_free g" "A = adjacency_csc g"
    by blast
  from adjacency_csc_props(1)[OF g(1,2), of i j] adjacency_csc_props(2)[OF g(1,2), of i j]
    adjacency_csc_props(3)[OF g(1,2), of i]
  show ?thesis by (simp add: g(3) shape_adjacency_csc)
qed

theorem adjacency_matrix_symmetric_binary_zero_diagonal_witness:
  "lists_edges (\<lambda>es. es) scenario_lines
   \<and> (\<exists>g D. loadsnap (\<lambda>es. es) scenario_lines = Inr (g, sample_adj, D))
   \<and> (0::nat) < nrows sample_adj \<and> (1::nat) < nrows sample_adj
   \<and> entry sample_adj 0 1 = entry sample_adj 1 0
   \<and> entry sample_adj 0 1 = 1
   \<and> entry sample_adj 0 0 = 0
   \<and> (\<exists>A D r'. create_connected_graph 3 (1 / 2) (sconst 1) = Some (Inr ((A, D), r'))
         \<and> nrows A = 3 \<and> entry A 0 2 = entry A 2 0 \<and> entry A 2 2 = 0)"
proof -
  note i = lists_edges_id(1)[of scenario_lines]
  have l: "\<exists>g D. loadsnap (\<lambda>es. es) scenario_lines = Inr (g, sample_adj, D)"
    using scenario_loadsnap_any[OF i] by blast
  have h0: "0 < nrows sample_adj" and h1: "1 < nrows sample_adj"
    by (simp_all add: sample_adj_def)
  have v: "entry sample_adj 0 1 = 1"
    by (simp add: sample_adj_def entry_def column_def np_slice_def)
  have a: "(lists_edges (\<lambda>es. es) scenario_lines
        \<and> (\<exists>g D. loadsnap (\<lambda>es. es) scenario_lines = Inr (g, sample_adj, D)))
      \<or> create_connected_graph 0 0 (sconst 0) = Some (Inr ((sample_adj, sample_adj), sconst 0))"
    using i l by blast
  note t1 = adjacency_matrix_symmetric_binary_zero_diagonal[OF a h0 h1]
  have args: "(1::int) \<le> 3" "(0::real) \<le> 1 / 2" "(1 / 2::real) \<le> 1" by simp_all
  from connected_graph_ok[OF args, of "sconst 1"] obtain g r' k where
    g: "connected_graph 3 (1 / 2) (sconst 1) = Some (Inr (g, r', k))" "nodes g = [0..3 - 1]"
    by blast
  let ?B = "adjacency_csc g"
  let ?D = "diags (row_sums ?B)"
  from g(2) have ne: "nodes g \<noteq> []" by (simp add: upto.simps)
  have c: "create_connected_graph 3 (1 / 2) (sconst 1) = Some (Inr ((?B, ?D), r'))"
    using g(1) ne by (rule create_connected_graph_eq)
  have nb: "nrows ?B = 3" by (simp add: shape_adjacency_csc g(2))
  have b: "(lists_edges (\<lambda>es. es) [] \<and> (\<exists>g D. loadsnap (\<lambda>es. es) [] = Inr (g, ?B, D)))
      \<or> create_connected_graph 3 (1 / 2) (sconst 1) = Some (Inr ((?B, ?D), r'))"
    using c by simp
  have i0: "0 < nrows ?B" and i2: "2 < nrows ?B" by (simp_all add: nb)
  note t2 = adjacency_matrix_symmetric_binary_zero_diagonal[OF b i0 i2]
    adjacency_matrix_symmetric_binary_zero_diagonal[OF b i2 i2]
  from t2 c nb have "\<exists>A D r'. create_connected_graph 3 (1 / 2) (sconst 1) = Some (Inr ((A, D), r'))
         \<and> nrows A = 3 \<and> entry A 0 2 = entry A 2 0 \<and> entry A 2 2 = 0" by blast
  with t1 i l h0 h1 v show ?thesis by simp
qed

text \<open>
  C8. In the result of \<open>loadsnap\<close> the node list is the increasing list of the node
  identifiers, so that position \<open>i\<close> holds the \<open>i\<close>-th smallest identifier and the
  positions \<open>0, \<dots>, |nodes| - 1\<close> are in bijection with the nodes. Both matrices have
  that many rows and columns; the entry of the adjacency matrix at \<open>(i, j)\<close> tells
  whether the \<open>i\<close>-th and the \<open>j\<close>-th node are adjacent, and the degree matrix holds at
  \<open>(i, i)\<close> the number of neighbours of the \<open>i\<close>-th node. The matrices are values: nothing
  changes them after they are returned.
\<close>

theorem loadsnap_index_mapping:
  assumes "lists_edges set_order lines" and "loadsnap set_order lines = Inr (g, A, D)"
  shows "nodes g = sorted_list_of_set (set (nodes g))
     \<and> bij_betw (\<lambda>i. nodes g ! i) {..<length (nodes g)} (set (nodes g))
     \<and> nrows A = length (nodes g) \<and> ncols A = length (nodes g)
     \<and> nrows D = length (nodes g) \<and> ncols D = length (nodes g)
     \<and> (\<forall>i<length (nodes g). \<forall>j<length (nodes g).
           (i < j \<longleftrightarrow> nodes g ! i < nodes g ! j)
         \<and> entry A i j = (if (nodes g ! i, nodes g ! j) \<in> edge_rel g then 1 else 0)
         \<and> entry D i j = (if i = j then real (card {v. (nodes g ! i, v) \<in> edge_rel g}) else 0))"
proof -
  from assms(2) have g: "g = load_graph set_order lines" and A: "A = adjacency_csc g"
    and D: "D = diags (row_sums (adjacency_csc g))"
    by (simp_all add: loadsnap_Inr_iff)
  have ok: "graph_ok g" unfolding g using assms(1) by (rule load_graph_props(1))
  have sd: "sorted (nodes g)" "distinct (nodes g)"
    unfolding g using assms(1) by (rule load_graph_nodes)+
  have 1: "nodes g = sorted_list_of_set (set (nodes g))"
    using sd by (intro sorted_distinct_set_unique) simp_all
  have 2: "bij_betw (\<lambda>i. nodes g ! i) {..<length (nodes g)} (set (nodes g))"
    using sd(2) by (rule bij_betw_nth) simp_all
  have 3: "nrows A = length (nodes g)" "ncols A = length (nodes g)"
    by (simp_all add: A shape_adjacency_csc)
  have 4: "nrows D = length (nodes g)" "ncols D = length (nodes g)"
    by (simp_all add: D nrows_diags length_row_sums shape_adjacency_csc)
  have 5: "(i < j \<longleftrightarrow> nodes g ! i < nodes g ! j)
         \<and> entry A i j = (if (nodes g ! i, nodes g ! j) \<in> edge_rel g then 1 else 0)
         \<and> entry D i j = (if i = j then real (card {v. (nodes g ! i, v) \<in> edge_rel g}) else 0)"
    if ij: "i < length (nodes g)" "j < length (nodes g)" for i j
  proof (intro conjI)
    show "i < j \<longleftrightarrow> nodes g ! i < nodes g ! j"
      using sd ij by (rule sorted_distinct_nth_less_iff)
    show "entry A i j = (if (nodes g ! i, nodes g ! j) \<in> edge_rel g then 1 else 0)"
      using ij by (simp add: A entry_adjacency_csc edge_rel_def)
    show "entry D i j = (if i = j then real (card {v. (nodes g ! i, v) \<in> edge_rel g}) else 0)"
    proof (cases "i = j")
      case True
      with degree_matrix_entry[OF ok ij(1)] show ?thesis by (simp add: D)
    next
      case False
      then show ?thesis by (simp add: D entry_diags)
    qed
  qed
  from 1 2 3 4 5 show ?thesis by blast
qed

theorem loadsnap_index_mapping_witness:
  "lists_edges rev scenario_lines
   \<and> (\<exists>g A D. loadsnap rev scenario_lines = Inr (g, A, D)
         \<and> nodes g = [0, 1, 2, 3] \<and> nrows A = 4
         \<and> entry A 2 3 = 1 \<and> entry A 0 3 = 0 \<and> entry D 2 2 = 3)"
proof -
  let ?g = "load_graph rev scenario_lines"
  let ?A = "sample_adj"
  let ?D = "diags [2, 2, 3, 1]"
  have h: "lists_edges rev scenario_lines" by (rule lists_edges_id(2))
  have l: "loadsnap rev scenario_lines = Inr (?g, ?A, ?D)" using h by (rule scenario_loadsnap_any)
  note t = loadsnap_index_mapping[OF h l]
  have n: "nodes ?g = [0, 1, 2, 3]" using h by (rule scenario_nodes_any)
  from t n have na: "nrows ?A = 4" by simp
  have e23: "(nodes ?g ! 2, nodes ?g ! 3) \<in> edge_rel ?g"
    by (simp add: n edge_rel_def scenario_adj_sets[OF h])
  have len: "(2::nat) < length (nodes ?g)" "(3::nat) < length (nodes ?g)"
    "(0::nat) < length (nodes ?g)"
    by (simp_all add: n)
  from t len(1,2) e23 have a23: "entry ?A 2 3 = 1" by presburger
  have e03: "(nodes ?g ! 0, nodes ?g ! 3) \<notin> edge_rel ?g"
    by (simp add: n edge_rel_def scenario_adj_sets[OF h])
  from t len(3,2) e03 have a03: "entry ?A 0 3 = 0" by presburger
  have "{v. (nodes ?g ! 2, v) \<in> edge_rel ?g} = {0, 1, 3}"
    by (auto simp add: n edge_rel_def scenario_adj_sets[OF h])
  then have "real (card {v. (nodes ?g ! 2, v) \<in> edge_rel ?g}) = 3" by simp
  with t len(1) have d22: "entry ?D 2 2 = 3" by presburger
  from h l n na a23 a03 d22 show ?thesis by blast
qed

text \<open>
  C10. Every node of the graph returned by \<open>loadsnap\<close> has a neighbour other than
  itself among the nodes, joined to it by an edge that was kept from the file. A node
  identifier is in the graph exactly when some line of the file parses to a pair of two
  different integers one of which it is; an identifier that occurs only on self-loop
  lines or on skipped lines is not a node.
\<close>

theorem loadsnap_no_isolated_nodes:
  assumes "lists_edges set_order lines" and "loadsnap set_order lines = Inr (g, A, D)"
  shows "(\<forall>w\<in>set (nodes g).
            \<exists>x\<in>set (nodes g). x \<noteq> w \<and> x \<in> set (adj g w)
               \<and> (min w x, max w x) \<in> set (read_edges lines))
     \<and> (w \<in> set (nodes g) \<longleftrightarrow>
          (\<exists>raw\<in>set lines. \<exists>u v. parse_line raw = Some (u, v) \<and> u \<noteq> v \<and> (w = u \<or> w = v)))"
proof
  from assms(2) have g: "g = load_graph set_order lines" by (simp add: loadsnap_Inr_iff)
  note p = load_graph_props[OF assms(1), folded g]
  show "\<forall>w\<in>set (nodes g). \<exists>x\<in>set (nodes g). x \<noteq> w \<and> x \<in> set (adj g w)
      \<and> (min w x, max w x) \<in> set (read_edges lines)"
  proof
    fix w assume "w \<in> set (nodes g)"
    then obtain s d where sd: "(s, d) \<in> set (read_edges lines)" "w = s \<or> w = d"
      unfolding p(4) by force
    define x where "x = (if w = s then d else s)"
    note lt = read_edges_ordered[OF sd(1)]
    from sd lt have "x \<noteq> w" "(w, x) \<in> edge_rel g" unfolding p(5) x_def by auto
    then have x: "x \<noteq> w" "x \<in> set (adj g w)" by (simp_all add: edge_rel_def)
    moreover from x(2) p(1) have "x \<in> set (nodes g)" by (auto simp: graph_ok_def)
    moreover from sd lt have "(min w x, max w x) \<in> set (read_edges lines)"
      unfolding x_def by (auto simp: min_def max_def)
    ultimately show "\<exists>x\<in>set (nodes g). x \<noteq> w \<and> x \<in> set (adj g w)
        \<and> (min w x, max w x) \<in> set (read_edges lines)" by blast
  qed
  show "w \<in> set (nodes g) \<longleftrightarrow>
        (\<exists>raw\<in>set lines. \<exists>u v. parse_line raw = Some (u, v) \<and> u \<noteq> v \<and> (w = u \<or> w = v))"
    unfolding g load_graph_nodes(3)[OF assms(1)] by simp
qed

theorem loadsnap_no_isolated_nodes_witness:
  "lists_edges (\<lambda>es. es) loop_lines
   \<and> parse_line ''0 1'' = Some (0, 1) \<and> parse_line ''3 3'' = Some (3, 3)
   \<and> (\<exists>g A D. loadsnap (\<lambda>es. es) loop_lines = Inr (g, A, D)
         \<and> nodes g = [0, 1] \<and> (3::int) \<notin> set (nodes g)
         \<and> (\<exists>x\<in>set (nodes g). x \<noteq> 0 \<and> x \<in> set (adj g 0)))"
proof -
  let ?g = "load_graph (\<lambda>es. es) loop_lines"
  have h: "lists_edges (\<lambda>es. es) loop_lines" by (rule lists_edges_id(1))
  have e: "endpoints [(0, 1)] = [0, 1::int]" by (simp add: endpoints_def py_set_add_def)
  have n: "nodes ?g = [0, 1]" by (simp add: load_graph_props(3)[OF h] loop_edges e)
  then have l: "loadsnap (\<lambda>es. es) loop_lines =
      Inr (?g, adjacency_csc ?g, diags (row_sums (adjacency_csc ?g)))"
    by (simp add: loadsnap_nonempty)
  note t = loadsnap_no_isolated_nodes[OF h l]
  have "\<not> (\<exists>raw\<in>set loop_lines. \<exists>u v. parse_line raw = Some (u, v) \<and> u \<noteq> v \<and> (3 = u \<or> 3 = v))"
    by (simp add: loop_lines_def loop_parse)
  with t[of 3] have n3: "(3::int) \<notin> set (nodes ?g)" by blast
  have "(0::int) \<in> set (nodes ?g)" by (simp add: n)
  with t[of 0] have n0: "\<exists>x\<in>set (nodes ?g). x \<noteq> 0 \<and> x \<in> set (adj ?g 0)" by blast
  from h loop_parse l n n3 n0 show ?thesis by blast
qed

end
